theory Spec2Isabelle
  imports Main "HOL-Library.AList"
begin

section \<open>Characters and strings\<close>

text \<open>
  A Python string is a sequence of Unicode code points. A code point is a natural number
  and a string a list of them; \<open>u\<close> turns the ASCII text of a literal of the source
  into such a string. The character tables are those of Unicode 14.0, the version of
  Python 3.11; later versions add ranges of digits above U+10000.
\<close>

type_synonym ustr = "nat list"

definition ord :: "char \<Rightarrow> nat" where
  "ord c = of_char c"

definition u :: "string \<Rightarrow> ustr" where
  "u s = map ord s"

text \<open>\<^verbatim>\<open>str.isspace\<close>, which is also the regex class \<^verbatim>\<open>\s\<close> of a \<^verbatim>\<open>str\<close> pattern.\<close>

definition isspace :: "nat \<Rightarrow> bool" where
  "isspace c =
     ((9 \<le> c \<and> c \<le> 13) \<or> (28 \<le> c \<and> c \<le> 32) \<or> c = 133 \<or> c = 160 \<or> c = 5760
      \<or> (8192 \<le> c \<and> c \<le> 8202) \<or> c = 8232 \<or> c = 8233 \<or> c = 8239 \<or> c = 8287
      \<or> c = 12288)"

text \<open>
  The regex class \<^verbatim>\<open>\d\<close> of a \<^verbatim>\<open>str\<close> pattern: the decimal digits of every script
  (general category Nd), given by their ranges.
\<close>

definition nd_ranges :: "(nat \<times> nat) list" where
  "nd_ranges =
    [(48, 57), (1632, 1641), (1776, 1785), (1984, 1993), (2406, 2415),
     (2534, 2543), (2662, 2671), (2790, 2799), (2918, 2927), (3046, 3055),
     (3174, 3183), (3302, 3311), (3430, 3439), (3558, 3567), (3664, 3673),
     (3792, 3801), (3872, 3881), (4160, 4169), (4240, 4249), (6112, 6121),
     (6160, 6169), (6470, 6479), (6608, 6617), (6784, 6793), (6800, 6809),
     (6992, 7001), (7088, 7097), (7232, 7241), (7248, 7257), (42528, 42537),
     (43216, 43225), (43264, 43273), (43472, 43481), (43504, 43513), (43600, 43609),
     (44016, 44025), (65296, 65305), (66720, 66729), (68912, 68921), (69734, 69743),
     (69872, 69881), (69942, 69951), (70096, 70105), (70384, 70393), (70736, 70745),
     (70864, 70873), (71248, 71257), (71360, 71369), (71472, 71481), (71904, 71913),
     (72016, 72025), (72784, 72793), (73040, 73049), (73120, 73129), (92768, 92777),
     (92864, 92873), (93008, 93017), (120782, 120831), (123200, 123209), (123632, 123641),
     (125264, 125273), (130032, 130041)]"

definition isdigit :: "nat \<Rightarrow> bool" where
  "isdigit c = list_ex (\<lambda>(lo, hi). lo \<le> c \<and> c \<le> hi) nd_ranges"

text \<open>The digits \<^verbatim>\<open>0\<close> to \<^verbatim>\<open>9\<close>.\<close>

definition ascii_digit :: "nat \<Rightarrow> bool" where
  "ascii_digit c = (48 \<le> c \<and> c \<le> 57)"

text \<open>
  \<^verbatim>\<open>re.IGNORECASE\<close> on the literals of the patterns, which are ASCII: a literal
  matches a code point of the same folded case. Besides the two ASCII cases of a
  letter, \<^verbatim>\<open>i\<close> matches U+0130 and U+0131, \<^verbatim>\<open>s\<close> matches U+017F and \<^verbatim>\<open>k\<close>
  matches U+212A.
\<close>

definition fold_case :: "nat \<Rightarrow> nat" where
  "fold_case c =
     (if 65 \<le> c \<and> c \<le> 90 then c + 32
      else if c = 304 \<or> c = 305 then 105
      else if c = 383 then 115
      else if c = 8490 then 107
      else c)"

definition endswith :: "ustr \<Rightarrow> ustr \<Rightarrow> bool" where
  "endswith s suffix =
     (length suffix \<le> length s \<and> drop (length s - length suffix) s = suffix)"

text \<open>\<^verbatim>\<open>str.strip()\<close>: leading and trailing whitespace removed.\<close>

definition strip :: "ustr \<Rightarrow> ustr" where
  "strip s = rev (dropWhile isspace (rev (dropWhile isspace s)))"

section \<open>The regular expressions of \<^verbatim>\<open>parse_fields\<close>\<close>

text \<open>
  The fifteen patterns use literals, the classes \<^verbatim>\<open>\d\<close>, \<^verbatim>\<open>\s\<close>, \<^verbatim>\<open>.\<close> and
  \<^verbatim>\<open>[\d\.]\<close>, the greedy quantifiers \<^verbatim>\<open>*\<close>, \<^verbatim>\<open>+\<close> and \<^verbatim>\<open>{9,10}\<close>, and one
  capture group. A pattern is a list of tokens: a quantified one-character atom
  \<open>Rep a lo hi\<close> (at least \<open>lo\<close>, at most \<open>hi\<close> repetitions, unbounded for \<open>None\<close>),
  or the opening or closing parenthesis of the group.
\<close>

datatype citem = ILit nat | IDigit

datatype atom = Lit nat | Digit | Space | Dot | Bracket "citem list"

datatype tok = Rep atom nat "nat option" | Open | Close

text \<open>
  All searches run with \<^verbatim>\<open>re.IGNORECASE\<close>: a literal matches a code point of the
  same folded case. The dot matches everything except the newline.
\<close>

fun citem_ok :: "citem \<Rightarrow> nat \<Rightarrow> bool" where
  "citem_ok (ILit l) c = (fold_case l = fold_case c)"
| "citem_ok IDigit c = isdigit c"

fun atom_ok :: "atom \<Rightarrow> nat \<Rightarrow> bool" where
  "atom_ok (Lit l) c = (fold_case l = fold_case c)"
| "atom_ok Digit c = isdigit c"
| "atom_ok Space c = isspace c"
| "atom_ok Dot c = (c \<noteq> 10)"
| "atom_ok (Bracket items) c = list_ex (\<lambda>i. citem_ok i c) items"

text \<open>The largest number of repetitions a greedy quantifier can take at the front of \<open>s\<close>.\<close>

definition count_max :: "atom \<Rightarrow> nat option \<Rightarrow> ustr \<Rightarrow> nat" where
  "count_max a hi s =
     length (takeWhile (atom_ok a) (case hi of None \<Rightarrow> s | Some h \<Rightarrow> take h s))"

text \<open>
  Backtracking: the continuation \<open>f\<close> is tried with \<open>k\<close> repetitions, then with one
  fewer, down to \<open>lo\<close>; the first success wins.
\<close>

fun try_down :: "(nat \<Rightarrow> 'a option) \<Rightarrow> nat \<Rightarrow> nat \<Rightarrow> 'a option" where
  "try_down f lo 0 = (if 0 < lo then None else f 0)"
| "try_down f lo (Suc k) =
     (if Suc k < lo then None
      else case f (Suc k) of Some r \<Rightarrow> Some r | None \<Rightarrow> try_down f lo k)"

text \<open>
  A match anchored at the front of \<open>s\<close>. The result holds the text remaining where
  the group opened and where it closed (\<open>None\<close> when the match did not pass there).
\<close>

type_synonym span = "ustr option \<times> ustr option"

primrec match_here :: "tok list \<Rightarrow> ustr \<Rightarrow> span option" where
  "match_here [] s = Some (None, None)"
| "match_here (t # ts) s =
     (case t of
        Open \<Rightarrow> map_option (\<lambda>(a, b). (Some s, b)) (match_here ts s)
      | Close \<Rightarrow> map_option (\<lambda>(a, b). (a, Some s)) (match_here ts s)
      | Rep a lo hi \<Rightarrow> try_down (\<lambda>k. match_here ts (drop k s)) lo (count_max a hi s))"

text \<open>\<^verbatim>\<open>re.search\<close>: the match at the leftmost start position that has one.\<close>

fun re_search :: "tok list \<Rightarrow> ustr \<Rightarrow> span option" where
  "re_search p [] = match_here p []"
| "re_search p (c # s) =
     (case match_here p (c # s) of Some m \<Rightarrow> Some m | None \<Rightarrow> re_search p s)"

text \<open>\<^verbatim>\<open>match.group(1)\<close>: the text of the group, \<open>None\<close> when it took no part.\<close>

fun group1 :: "span \<Rightarrow> ustr option" where
  "group1 (Some a, Some b) = Some (take (length a - length b) a)"
| "group1 _ = None"

definition lits :: "string \<Rightarrow> tok list" where
  "lits s = map (\<lambda>c. Rep (Lit (ord c)) 1 (Some 1)) s"

definition zero_or_more :: "atom \<Rightarrow> tok" where
  "zero_or_more a = Rep a 0 None"

definition one_or_more :: "atom \<Rightarrow> tok" where
  "one_or_more a = Rep a 1 None"

text \<open>\<^verbatim>\<open>Label\s*(.*)\<close>\<close>

definition labelled :: "string \<Rightarrow> tok list" where
  "labelled label = lits label @ [zero_or_more Space, Open, zero_or_more Dot, Close]"

section \<open>\<^verbatim>\<open>TicketLogic.parse_fields\<close>\<close>

text \<open>The pattern table of \<^verbatim>\<open>ticket_app.py\<close>, in the order of the dict literal.\<close>

definition patterns_app :: "(string \<times> tok list) list" where
  "patterns_app =
    [(''Ticket_ID'', [Open, Rep Digit 9 (Some 10), Close]),
     (''Date_Time'', labelled ''Ticket Date/Time:''),
     (''Applicant'', labelled ''Applicant:''),
     (''Disaster'', labelled ''Disaster:''),
     (''Program'', labelled ''Program:''),
     (''Contractor'', labelled ''Contractor:''),
     (''Sub-Contractor'', labelled ''Sub-Contractor:''),
     (''Crew'', labelled ''Crew:''),
     (''Supervisor'', labelled ''Supervisor:''),
     (''Hazard_Type'', labelled ''Hazard Type:''),
     (''GPS'', labelled ''GPS(Lat,Lgn):''),
     (''Address'', labelled ''Address:''),
     (''Measure'',
        lits ''Measure:'' @ [zero_or_more Space, Open, one_or_more (Bracket [IDigit, ILit (ord CHR ''.'')]), Close]),
     (''Unit_Count'', lits ''Unit Count:'' @ [zero_or_more Space, Open, one_or_more Digit, Close]),
     (''Monitor'', labelled ''Monitor:'')]"

text \<open>The pattern table of \<^verbatim>\<open>ticket_sorter.py\<close>.\<close>

definition patterns_sorter :: "(string \<times> tok list) list" where
  "patterns_sorter =
    [(''Ticket_ID'', [Open, Rep Digit 9 (Some 10), Close]),
     (''Date_Time'', labelled ''Ticket Date/Time:''),
     (''Applicant'', labelled ''Applicant:''),
     (''Disaster'', labelled ''Disaster:''),
     (''Program'', labelled ''Program:''),
     (''Contractor'', labelled ''Contractor:''),
     (''Sub-Contractor'', labelled ''Sub-Contractor:''),
     (''Crew'', labelled ''Crew:''),
     (''Supervisor'', labelled ''Supervisor:''),
     (''Hazard_Type'', labelled ''Hazard Type:''),
     (''GPS'', labelled ''GPS(Lat,Lgn):''),
     (''Address'', labelled ''Address:''),
     (''Measure'',
        lits ''Measure:'' @ [zero_or_more Space, Open, one_or_more (Bracket [IDigit, ILit (ord CHR ''.'')]), Close]),
     (''Unit_Count'', lits ''Unit Count:'' @ [zero_or_more Space, Open, one_or_more Digit, Close]),
     (''Monitor'', labelled ''Monitor:'')]"

text \<open>
  An exception carries its message (\<^verbatim>\<open>str(e)\<close>). Only exceptions of class
  \<^verbatim>\<open>Exception\<close> are modelled, the ones an \<^verbatim>\<open>except Exception\<close> clause catches.
\<close>

datatype exn = Exn ustr

type_synonym row = "(string \<times> ustr) list"

text \<open>
  \<^verbatim>\<open>match.group(1).strip() if match else "N/A"\<close>. A group that took no part is
  \<^verbatim>\<open>None\<close> in Python, and \<^verbatim>\<open>.strip()\<close> on it raises.
\<close>

definition field_value :: "tok list \<Rightarrow> ustr \<Rightarrow> exn + ustr" where
  "field_value pattern text =
     (case re_search pattern text of
        None \<Rightarrow> Inr (u ''N/A'')
      | Some m \<Rightarrow>
          (case group1 m of
             None \<Rightarrow> Inl (Exn (u ''AttributeError''))
           | Some g \<Rightarrow> Inr (strip g)))"

text \<open>
  The loop \<^verbatim>\<open>for field, pattern in patterns.items(): row[field] = ...\<close>. A row is a
  dict in insertion order: an assignment replaces the value of a key that is there and
  appends a new key.
\<close>

fun parse_loop :: "(string \<times> tok list) list \<Rightarrow> ustr \<Rightarrow> row \<Rightarrow> exn + row" where
  "parse_loop [] text row = Inr row"
| "parse_loop ((field, pattern) # ps) text row =
     (case field_value pattern text of
        Inl e \<Rightarrow> Inl e
      | Inr v \<Rightarrow> parse_loop ps text (AList.update field v row))"

definition parse_fields_app :: "ustr \<Rightarrow> exn + row" where
  "parse_fields_app text = parse_loop patterns_app text []"

definition parse_fields_sorter :: "ustr \<Rightarrow> exn + row" where
  "parse_fields_sorter text = parse_loop patterns_sorter text []"

definition field_names :: "string list" where
  "field_names =
    [''Ticket_ID'', ''Date_Time'', ''Applicant'', ''Disaster'', ''Program'', ''Contractor'',
     ''Sub-Contractor'', ''Crew'', ''Supervisor'', ''Hazard_Type'', ''GPS'', ''Address'',
     ''Measure'', ''Unit_Count'', ''Monitor'']"

section \<open>Notions used in the statements\<close>

text \<open>The first capture group of the leftmost match, when there is a match.\<close>

definition first_group :: "tok list \<Rightarrow> ustr \<Rightarrow> ustr option" where
  "first_group p text = Option.bind (re_search p text) group1"

text \<open>What \<^verbatim>\<open>parse_fields\<close> stores for a pattern whose group always takes part.\<close>

definition value_of :: "tok list \<Rightarrow> ustr \<Rightarrow> ustr" where
  "value_of p text = (case first_group p text of None \<Rightarrow> u ''N/A'' | Some g \<Rightarrow> strip g)"

text \<open>The pattern has the parentheses of a group.\<close>

definition has_group :: "tok list \<Rightarrow> bool" where
  "has_group p = (Open \<in> set p \<and> Close \<in> set p)"

definition no_outer_space :: "ustr \<Rightarrow> bool" where
  "no_outer_space v = (case v of [] \<Rightarrow> True | c # _ \<Rightarrow> \<not> isspace c \<and> \<not> isspace (last v))"

definition all_digits :: "ustr \<Rightarrow> bool" where
  "all_digits v = (v \<noteq> [] \<and> list_all isdigit v)"

definition all_digits_or_periods :: "ustr \<Rightarrow> bool" where
  "all_digits_or_periods v = (v \<noteq> [] \<and> list_all (\<lambda>c. isdigit c \<or> c = ord CHR ''.'') v)"

section \<open>\<^verbatim>\<open>TicketLogic.process_file\<close>\<close>

text \<open>
  The PDF renderer, the image library, the OCR engine and \<^verbatim>\<open>os.path\<close> are outside the
  repository. They are parameters: each call returns a value or raises, as a function
  of its argument.
\<close>

record 'img world =
  convert_from_path :: "ustr \<Rightarrow> exn + 'img list"
  image_open :: "ustr \<Rightarrow> exn + 'img"
  image_to_string :: "'img \<Rightarrow> exn + ustr"
  basename :: "ustr \<Rightarrow> ustr"

text \<open>The calls a run makes, in order, so that a statement can say what was called.\<close>

datatype 'img call = Rasterize ustr | OpenImage ustr | Ocr 'img | ParseFields ustr

text \<open>
  The loop \<^verbatim>\<open>for img in images\<close>: OCR, then \<^verbatim>\<open>parse_fields\<close>, then append. An
  exception ends the loop and the rows collected so far are lost.
\<close>

fun ocr_loop ::
  "'img world \<Rightarrow> (ustr \<Rightarrow> exn + row) \<Rightarrow> 'img list \<Rightarrow> row list \<Rightarrow> 'img call list \<times> (exn + row list)"
where
  "ocr_loop w parse [] extracted_data = ([], Inr extracted_data)"
| "ocr_loop w parse (img # images) extracted_data =
     (case image_to_string w img of
        Inl e \<Rightarrow> ([Ocr img], Inl e)
      | Inr text_block \<Rightarrow>
          (case parse text_block of
             Inl e \<Rightarrow> ([Ocr img, ParseFields text_block], Inl e)
           | Inr r \<Rightarrow>
               (let (calls, res) = ocr_loop w parse images (extracted_data @ [r])
                in (Ocr img # ParseFields text_block # calls, res))))"

text \<open>
  \<^verbatim>\<open>file_path.lower().endswith(".pdf")\<close>. The lower case of a string is made of the
  lower cases of its code points, none of which is empty, and \<^verbatim>\<open>.\<close>, \<^verbatim>\<open>p\<close>,
  \<^verbatim>\<open>P\<close>, \<^verbatim>\<open>d\<close>, \<^verbatim>\<open>D\<close>, \<^verbatim>\<open>f\<close> and \<^verbatim>\<open>F\<close> are the only code points whose
  lower case holds a character of \<^verbatim>\<open>.pdf\<close>. So the test depends on the last four
  code points only, and on them \<^verbatim>\<open>str.lower\<close> can be replaced by the lower case of
  the ASCII letters, which leaves every other code point as it is.
\<close>

definition ascii_lower :: "ustr \<Rightarrow> ustr" where
  "ascii_lower s = map (\<lambda>c. if 65 \<le> c \<and> c \<le> 90 then c + 32 else c) s"

definition is_pdf :: "ustr \<Rightarrow> bool" where
  "is_pdf file_path = endswith (ascii_lower file_path) (u ''.pdf'')"

text \<open>\<^verbatim>\<open>ticket_sorter.py\<close>: exceptions leave \<^verbatim>\<open>process_file\<close> as they are.\<close>

definition process_file_sorter :: "'img world \<Rightarrow> ustr \<Rightarrow> 'img call list \<times> (exn + row list)" where
  "process_file_sorter w file_path =
     (if is_pdf file_path then
        (case convert_from_path w file_path of
           Inl e \<Rightarrow> ([Rasterize file_path], Inl e)
         | Inr images \<Rightarrow>
             (let (calls, res) = ocr_loop w parse_fields_sorter images []
              in (Rasterize file_path # calls, res)))
      else
        (case image_open w file_path of
           Inl e \<Rightarrow> ([OpenImage file_path], Inl e)
         | Inr img \<Rightarrow>
             (let (calls, res) = ocr_loop w parse_fields_sorter [img] []
              in (OpenImage file_path # calls, res))))"

text \<open>
  \<^verbatim>\<open>ticket_app.py\<close>: the same body inside \<^verbatim>\<open>try\<close>; an exception is raised again as
  \<^verbatim>\<open>Exception(f"OCR Error: {str(e)}")\<close>.
\<close>

fun ocr_error :: "exn \<Rightarrow> exn" where
  "ocr_error (Exn msg) = Exn (u ''OCR Error: '' @ msg)"

definition process_file_app :: "'img world \<Rightarrow> ustr \<Rightarrow> 'img call list \<times> (exn + row list)" where
  "process_file_app w file_path =
     (let (calls, res) =
        (if is_pdf file_path then
           (case convert_from_path w file_path of
              Inl e \<Rightarrow> ([Rasterize file_path], Inl e)
            | Inr images \<Rightarrow>
                (let (calls, res) = ocr_loop w parse_fields_app images []
                 in (Rasterize file_path # calls, res)))
         else
           (case image_open w file_path of
              Inl e \<Rightarrow> ([OpenImage file_path], Inl e)
            | Inr img \<Rightarrow>
                (let (calls, res) = ocr_loop w parse_fields_app [img] []
                 in (OpenImage file_path # calls, res))))
      in (calls, case res of Inl e \<Rightarrow> Inl (ocr_error e) | Inr extracted_data \<Rightarrow> Inr extracted_data))"

section \<open>\<^verbatim>\<open>ProcessingWorker.run\<close>\<close>

text \<open>\<^verbatim>\<open>str\<close> of a non-negative integer.\<close>

fun str_nat :: "nat \<Rightarrow> ustr" where
  "str_nat n = (if n < 10 then [48 + n] else str_nat (n div 10) @ [48 + n mod 10])"

text \<open>
  Double precision. A positive double is \<open>m / 2 ^ e\<close> with \<open>2 ^ 52 \<le> m \<le> 2 ^ 53\<close>.
  \<open>round_double a b\<close> is the double nearest to the quotient \<open>a / b\<close>, ties to the even
  mantissa, for \<open>0 < a / b < 2 ^ 52\<close>; the quotients of \<^verbatim>\<open>run\<close> lie between
  \<open>1 / n\<close> and \<open>100\<close>.
\<close>

function find_exp :: "int \<Rightarrow> int \<Rightarrow> nat \<Rightarrow> nat" where
  "find_exp a b e = (if a \<le> 0 \<or> 2 ^ 52 * b \<le> a * 2 ^ e then e else find_exp a b (Suc e))"
  by pat_completeness auto
termination
proof (relation "measure (\<lambda>(a, b, e). nat (2 ^ 52 * b - a * 2 ^ e))")
  show "wf (measure (\<lambda>(a, b, e). nat (2 ^ 52 * b - a * 2 ^ e)))" by simp
next
  fix a b :: int and e :: nat
  assume "\<not> (a \<le> 0 \<or> 2 ^ 52 * b \<le> a * 2 ^ e)"
  then have pos: "0 < a" and below: "a * 2 ^ e < 2 ^ 52 * b" by simp_all
  from pos have grow: "a * 2 ^ e < a * 2 ^ Suc e" by simp
  from grow below have "nat (2 ^ 52 * b - a * 2 ^ Suc e) < nat (2 ^ 52 * b - a * 2 ^ e)"
    by linarith
  then show "((a, b, Suc e), (a, b, e)) \<in> measure (\<lambda>(a, b, e). nat (2 ^ 52 * b - a * 2 ^ e))"
    by simp
qed

definition round_double :: "int \<Rightarrow> int \<Rightarrow> int \<times> nat" where
  "round_double a b =
     (let e = find_exp a b 0;
          q = (a * 2 ^ e) div b;
          r = (a * 2 ^ e) mod b;
          m = (if 2 * r < b then q else if b < 2 * r then q + 1
               else if even q then q else q + 1)
      in (m, e))"

text \<open>
  \<^verbatim>\<open>int(((i + 1) / len(self.file_paths)) * 100)\<close> with \<open>k = i + 1\<close>: the true division
  rounds, the product rounds, \<^verbatim>\<open>int\<close> truncates.
\<close>

definition prog_val :: "nat \<Rightarrow> nat \<Rightarrow> int" where
  "prog_val k n =
     (let (m1, e1) = round_double (int k) (int n);
          (m2, e2) = round_double (m1 * 100) (2 ^ e1)
      in m2 div 2 ^ e2)"

datatype signal = Status ustr | Progress int | Finished "row list"

datatype 'img event = Ext "'img call" | Emit signal

text \<open>
  The loop of \<^verbatim>\<open>run\<close> over \<^verbatim>\<open>enumerate(self.file_paths)\<close>; \<open>n\<close> is
  \<^verbatim>\<open>len(self.file_paths)\<close> and \<open>process_file\<close> the method of the variant.
\<close>

fun run_loop ::
  "('img world \<Rightarrow> ustr \<Rightarrow> 'img call list \<times> (exn + row list)) \<Rightarrow> 'img world \<Rightarrow> nat \<Rightarrow> nat \<Rightarrow>
   ustr list \<Rightarrow> row list \<Rightarrow> 'img event list"
where
  "run_loop process_file w n i [] all_results = [Emit (Finished all_results)]"
| "run_loop process_file w n i (path # paths) all_results =
     (let filename = basename w path;
          (calls, res) = process_file w path
      in Emit (Status (u ''Processing ('' @ str_nat (i + 1) @ u ''/'' @ str_nat n @ u ''): '' @ filename))
         # map Ext calls
         @ (case res of
              Inr data_list \<Rightarrow>
                Emit (Progress (prog_val (i + 1) n))
                # run_loop process_file w n (i + 1) paths (all_results @ data_list)
            | Inl (Exn msg) \<Rightarrow>
                Emit (Status (u ''Error in '' @ filename @ u '': '' @ msg))
                # Emit (Progress (prog_val (i + 1) n))
                # run_loop process_file w n (i + 1) paths all_results))"

definition run_app :: "'img world \<Rightarrow> ustr list \<Rightarrow> 'img event list" where
  "run_app w file_paths = run_loop process_file_app w (length file_paths) 0 file_paths []"

definition run_sorter :: "'img world \<Rightarrow> ustr list \<Rightarrow> 'img event list" where
  "run_sorter w file_paths = run_loop process_file_sorter w (length file_paths) 0 file_paths []"

text \<open>The call that loads the images of a path, and what it returns.\<close>

definition loader_call :: "ustr \<Rightarrow> 'img call" where
  "loader_call file_path = (if is_pdf file_path then Rasterize file_path else OpenImage file_path)"

definition loaded :: "'img world \<Rightarrow> ustr \<Rightarrow> exn + 'img list" where
  "loaded w file_path =
     (if is_pdf file_path then convert_from_path w file_path
      else case image_open w file_path of Inl e \<Rightarrow> Inl e | Inr img \<Rightarrow> Inr [img])"

text \<open>The calls made for one image: OCR, and \<^verbatim>\<open>parse_fields\<close> when OCR returned a text.\<close>

definition page_calls :: "'img world \<Rightarrow> 'img \<Rightarrow> 'img call list" where
  "page_calls w img =
     (case image_to_string w img of Inl e \<Rightarrow> [Ocr img] | Inr t \<Rightarrow> [Ocr img, ParseFields t])"

text \<open>The row of one image: its OCR text, parsed.\<close>

definition page_row :: "'img world \<Rightarrow> 'img \<Rightarrow> row \<Rightarrow> bool" where
  "page_row w img r = (case image_to_string w img of Inl e \<Rightarrow> False | Inr t \<Rightarrow> parse_fields_app t = Inr r)"

text \<open>
  A world for the examples: \<^verbatim>\<open>a.pdf\<close> has the pages 10 and 11, \<^verbatim>\<open>b.pdf\<close> the pages
  11 and 10 and any other PDF the pages 11 and 12, \<^verbatim>\<open>bad.png\<close> cannot be opened and
  any other image file opens as image 13; OCR fails on image 10 and reads \<^verbatim>\<open>Crew: A \<close>
  on every other image.
\<close>

definition sample_world :: "nat world" where
  "sample_world =
     \<lparr>convert_from_path = (\<lambda>p. if p = u ''a.pdf'' then Inr [10, 11]
             else if p = u ''b.pdf'' then Inr [11, 10] else Inr [11, 12]),
      image_open =
        (\<lambda>p. if p = u ''bad.png'' then Inl (Exn (u ''cannot identify image file'')) else Inr 13),
      image_to_string =
        (\<lambda>i. if i = 10 then Inl (Exn (u ''tesseract failed'')) else Inr (u ''Crew: A '')),
      basename = (\<lambda>p. p)\<rparr>"

text \<open>The row of the example text.\<close>

definition sample_row :: row where
  "sample_row = map (\<lambda>(f, p). (f, value_of p (u ''Crew: A ''))) patterns_app"

text \<open>The rows a file contributes: those \<^verbatim>\<open>process_file\<close> returns, none when it raises.\<close>

definition rows_of ::
  "('img world \<Rightarrow> ustr \<Rightarrow> 'img call list \<times> (exn + row list)) \<Rightarrow> 'img world \<Rightarrow> ustr \<Rightarrow> row list"
where
  "rows_of pf w path = (case snd (pf w path) of Inl e \<Rightarrow> [] | Inr rows \<Rightarrow> rows)"

text \<open>What a run emits on each signal, and the paths it loads, in order.\<close>

fun finished_of :: "'img event list \<Rightarrow> row list list" where
  "finished_of [] = []"
| "finished_of (Emit (Finished rows) # evs) = rows # finished_of evs"
| "finished_of (ev # evs) = finished_of evs"

fun progress_of :: "'img event list \<Rightarrow> int list" where
  "progress_of [] = []"
| "progress_of (Emit (Progress v) # evs) = v # progress_of evs"
| "progress_of (ev # evs) = progress_of evs"

fun loads_of :: "'img event list \<Rightarrow> ustr list" where
  "loads_of [] = []"
| "loads_of (Ext (Rasterize p) # evs) = p # loads_of evs"
| "loads_of (Ext (OpenImage p) # evs) = p # loads_of evs"
| "loads_of (ev # evs) = loads_of evs"

text \<open>The events of one round of the loop of \<^verbatim>\<open>run\<close>.\<close>

definition file_events ::
  "('img world \<Rightarrow> ustr \<Rightarrow> 'img call list \<times> (exn + row list)) \<Rightarrow> 'img world \<Rightarrow> nat \<Rightarrow> nat \<Rightarrow> ustr \<Rightarrow>
   'img event list"
where
  "file_events pf w n i path =
     Emit (Status (u ''Processing ('' @ str_nat (i + 1) @ u ''/'' @ str_nat n @ u ''): '' @ basename w path))
     # map Ext (fst (pf w path))
     @ (case snd (pf w path) of
          Inl (Exn msg) \<Rightarrow> [Emit (Status (u ''Error in '' @ basename w path @ u '': '' @ msg))]
        | Inr data_list \<Rightarrow> [])
     @ [Emit (Progress (prog_val (i + 1) n))]"

section \<open>\<^verbatim>\<open>MainWindow\<close>\<close>

text \<open>
  The part of the window the two handlers read and write: whether the upload button is
  enabled, the lines of the log, the value of the progress bar and the file list of the
  worker created last. The field \<open>running\<close> is not a variable of the program: it
  records that the worker has been started and has not yet emitted \<^verbatim>\<open>finished\<close>.
\<close>

datatype log_line = Worker_line ustr | Extraction_failed | Saved ustr | Save_error ustr

record window =
  btn_enabled :: bool
  log_output :: "log_line list"
  pbar :: int
  worker :: "ustr list option"
  running :: bool

text \<open>
  \<^verbatim>\<open>handle_upload\<close>, the same in both files; \<open>files\<close> is what the file dialog
  returns, the empty list when it is cancelled.
\<close>

definition handle_upload :: "ustr list \<Rightarrow> window \<Rightarrow> window" where
  "handle_upload files st =
     (if files \<noteq> [] then
        st\<lparr>btn_enabled := False, log_output := [], pbar := 0, worker := Some files,
           running := True\<rparr>
      else st)"

text \<open>
  \<^verbatim>\<open>handle_finished\<close>; \<open>save_path\<close> is what the save dialog returns (\<open>None\<close> for
  the empty path of a cancelled dialog) and \<open>write_error\<close> the exception of
  \<^verbatim>\<open>to_excel\<close>, if it raises. \<^verbatim>\<open>ticket_app.py\<close> logs that exception.
\<close>

definition handle_finished_app :: "row list \<Rightarrow> ustr option \<Rightarrow> exn option \<Rightarrow> window \<Rightarrow> window" where
  "handle_finished_app results save_path write_error st =
     (let st = st\<lparr>btn_enabled := True\<rparr>
      in if results = [] then st\<lparr>log_output := log_output st @ [Extraction_failed]\<rparr>
         else case save_path of
                None \<Rightarrow> st
              | Some p \<Rightarrow>
                  (case write_error of
                     None \<Rightarrow> st\<lparr>log_output := log_output st @ [Saved p]\<rparr>
                   | Some (Exn msg) \<Rightarrow> st\<lparr>log_output := log_output st @ [Save_error msg]\<rparr>))"

text \<open>In \<^verbatim>\<open>ticket_sorter.py\<close> the exception of \<^verbatim>\<open>to_excel\<close> leaves the handler.\<close>

definition handle_finished_sorter :: "row list \<Rightarrow> ustr option \<Rightarrow> exn option \<Rightarrow> window \<Rightarrow> window" where
  "handle_finished_sorter results save_path write_error st =
     (let st = st\<lparr>btn_enabled := True\<rparr>
      in if results = [] then st\<lparr>log_output := log_output st @ [Extraction_failed]\<rparr>
         else case save_path of
                None \<Rightarrow> st
              | Some p \<Rightarrow>
                  (case write_error of
                     None \<Rightarrow> st\<lparr>log_output := log_output st @ [Saved p]\<rparr>
                   | Some e \<Rightarrow> st))"

text \<open>
  What the event loop delivers to the window: a click on the upload button with the
  answer of the file dialog, and the three signals of the worker, \<^verbatim>\<open>finished\<close> with
  the answers of the save dialog and of the spreadsheet writer.
\<close>

datatype ui_event =
  Click "ustr list"
| Worker_status ustr
| Worker_progress int
| Worker_finished "row list" "ustr option" "exn option"

text \<open>
  When an event can occur. Qt delivers \<^verbatim>\<open>clicked\<close> only for an enabled button, and the
  signals of the worker come from its \<^verbatim>\<open>run\<close>, between \<^verbatim>\<open>start\<close> and the emission of
  \<^verbatim>\<open>finished\<close>, which is the last statement of \<^verbatim>\<open>run\<close>.
\<close>

fun can_occur :: "window \<Rightarrow> ui_event \<Rightarrow> bool" where
  "can_occur st (Click files) = btn_enabled st"
| "can_occur st (Worker_status s) = running st"
| "can_occur st (Worker_progress v) = running st"
| "can_occur st (Worker_finished results save_path write_error) = running st"

text \<open>The slot connected to each signal; \<open>hf\<close> is \<^verbatim>\<open>handle_finished\<close> of the variant.\<close>

fun deliver ::
  "(row list \<Rightarrow> ustr option \<Rightarrow> exn option \<Rightarrow> window \<Rightarrow> window) \<Rightarrow> window \<Rightarrow> ui_event \<Rightarrow> window"
where
  "deliver hf st (Click files) = handle_upload files st"
| "deliver hf st (Worker_status s) = st\<lparr>log_output := log_output st @ [Worker_line s]\<rparr>"
| "deliver hf st (Worker_progress v) = st\<lparr>pbar := v\<rparr>"
| "deliver hf st (Worker_finished results save_path write_error) =
     hf results save_path write_error (st\<lparr>running := False\<rparr>)"

text \<open>A sequence of events from a state; \<open>None\<close> when one of them cannot occur.\<close>

fun run_events ::
  "(row list \<Rightarrow> ustr option \<Rightarrow> exn option \<Rightarrow> window \<Rightarrow> window) \<Rightarrow> window \<Rightarrow> ui_event list \<Rightarrow>
   window option"
where
  "run_events hf st [] = Some st"
| "run_events hf st (ev # evs) =
     (if can_occur st ev then run_events hf (deliver hf st ev) evs else None)"

fun is_finished :: "ui_event \<Rightarrow> bool" where
  "is_finished (Worker_finished results save_path write_error) = True"
| "is_finished ev = False"

text \<open>The window as \<^verbatim>\<open>__init__\<close> leaves it: button enabled, no worker.\<close>

definition initial :: "window \<Rightarrow> bool" where
  "initial st = (btn_enabled st \<and> \<not> running st \<and> worker st = None)"

text \<open>A window for the example: idle, then a click that selects one file.\<close>

definition idle_window :: window where
  "idle_window = \<lparr>btn_enabled = True, log_output = [], pbar = 0, worker = None, running = False\<rparr>"

section \<open>The regex engine\<close>

lemma try_down_Some:
  "try_down f lo k = Some r \<Longrightarrow> \<exists>j. lo \<le> j \<and> j \<le> k \<and> f j = Some r"
proof (induction k)
  case 0
  then show ?case by (auto split: if_splits)
next
  case (Suc k)
  show ?case
  proof (cases "f (Suc k)")
    case None
    with Suc.prems have "try_down f lo k = Some r" by (simp split: if_splits)
    from Suc.IH [OF this] show ?thesis by (meson le_SucI)
  next
    case (Some a)
    with Suc.prems have "lo \<le> Suc k \<and> Suc k \<le> Suc k \<and> f (Suc k) = Some r"
      by (auto split: if_splits)
    then show ?thesis by blast
  qed
qed

lemma match_here_Open:
  "Open \<in> set ts \<Longrightarrow> match_here ts s = Some (a, b) \<Longrightarrow> a \<noteq> None"
proof (induction ts arbitrary: s a b)
  case Nil
  then show ?case by simp
next
  case (Cons t ts)
  show ?case
  proof (cases t)
    case (Rep x lo hi)
    with Cons.prems obtain j where "match_here ts (drop j s) = Some (a, b)"
      by (auto dest: try_down_Some)
    moreover from Rep Cons.prems have "Open \<in> set ts" by simp
    ultimately show ?thesis using Cons.IH by blast
  next
    case Open
    with Cons.prems show ?thesis by auto
  next
    case Close
    with Cons.prems obtain a' b' where "match_here ts s = Some (a', b')" "a = a'"
      by auto
    moreover from Close Cons.prems have "Open \<in> set ts" by simp
    ultimately show ?thesis using Cons.IH by blast
  qed
qed

lemma match_here_Close:
  "Close \<in> set ts \<Longrightarrow> match_here ts s = Some (a, b) \<Longrightarrow> b \<noteq> None"
proof (induction ts arbitrary: s a b)
  case Nil
  then show ?case by simp
next
  case (Cons t ts)
  show ?case
  proof (cases t)
    case (Rep x lo hi)
    with Cons.prems obtain j where "match_here ts (drop j s) = Some (a, b)"
      by (auto dest: try_down_Some)
    moreover from Rep Cons.prems have "Close \<in> set ts" by simp
    ultimately show ?thesis using Cons.IH by blast
  next
    case Close
    with Cons.prems show ?thesis by auto
  next
    case Open
    with Cons.prems obtain a' b' where "match_here ts s = Some (a', b')" "b = b'"
      by auto
    moreover from Open Cons.prems have "Close \<in> set ts" by simp
    ultimately show ?thesis using Cons.IH by blast
  qed
qed

lemma re_search_Some:
  "re_search p s = Some m \<Longrightarrow> \<exists>k. k \<le> length s \<and> match_here p (drop k s) = Some m"
proof (induction s)
  case Nil
  then show ?case by simp
next
  case (Cons c s)
  show ?case
  proof (cases "match_here p (c # s)")
    case None
    with Cons.prems have "re_search p s = Some m" by simp
    from Cons.IH [OF this] obtain k where "k \<le> length s" "match_here p (drop k s) = Some m"
      by blast
    then have "Suc k \<le> length (c # s) \<and> match_here p (drop (Suc k) (c # s)) = Some m"
      by simp
    then show ?thesis by blast
  next
    case (Some a)
    with Cons.prems have "match_here p (drop 0 (c # s)) = Some m" by simp
    then show ?thesis by blast
  qed
qed

lemma group1_participates:
  assumes "has_group p" and "re_search p text = Some m"
  shows "\<exists>g. group1 m = Some g"
proof -
  obtain a b where m: "m = (a, b)" by (cases m)
  from assms(2) obtain k where "match_here p (drop k text) = Some (a, b)"
    unfolding m by (blast dest: re_search_Some)
  with assms(1) have "a \<noteq> None" "b \<noteq> None"
    unfolding has_group_def by (blast dest: match_here_Open match_here_Close)+
  then show ?thesis unfolding m by auto
qed

lemma field_value_has_group:
  "has_group p \<Longrightarrow> field_value p text = Inr (value_of p text)"
  by (auto simp: field_value_def value_of_def first_group_def
      split: option.splits dest: group1_participates)

lemma first_group_None:
  "has_group p \<Longrightarrow> first_group p text = None \<longleftrightarrow> re_search p text = None"
  by (auto simp: first_group_def  dest: group1_participates split: Option.bind_splits)

lemma update_fresh: "k \<notin> fst ` set al \<Longrightarrow> AList.update k v al = al @ [(k, v)]"
  by (induction al) auto

lemma parse_loop_closed:
  "distinct (map fst ps) \<Longrightarrow> \<forall>(f, p) \<in> set ps. has_group p \<Longrightarrow>
   fst ` set row \<inter> fst ` set ps = {} \<Longrightarrow>
   parse_loop ps text row = Inr (row @ map (\<lambda>(f, p). (f, value_of p text)) ps)"
proof (induction ps arbitrary: row)
  case Nil
  then show ?case by simp
next
  case (Cons fp ps)
  obtain f p where fp: "fp = (f, p)" by (cases fp)
  from Cons.prems fp have hg: "has_group p" and fresh: "f \<notin> fst ` set row" by auto
  have upd: "AList.update f (value_of p text) row = row @ [(f, value_of p text)]"
    using fresh by (rule update_fresh)
  have "parse_loop ps text (row @ [(f, value_of p text)])
      = Inr ((row @ [(f, value_of p text)]) @ map (\<lambda>(f, p). (f, value_of p text)) ps)"
  proof (rule Cons.IH)
    show "distinct (map fst ps)" using Cons.prems by simp
    show "\<forall>(f, p)\<in>set ps. has_group p" using Cons.prems by simp
    show "fst ` set (row @ [(f, value_of p text)]) \<inter> fst ` set ps = {}"
      using Cons.prems fp by auto
  qed
  then show ?case
    by (simp add: fp field_value_has_group [OF hg] upd)
qed

lemma has_group_labelled: "has_group (labelled l)"
  by (simp add: has_group_def labelled_def)

lemma patterns_app_ok:
  "distinct (map fst patterns_app)" "\<forall>(f, p) \<in> set patterns_app. has_group p"
  by (simp_all add: patterns_app_def has_group_labelled) (simp_all add: has_group_def)

lemma parse_fields_app_closed:
  "parse_fields_app text = Inr (map (\<lambda>(f, p). (f, value_of p text)) patterns_app)"
  unfolding parse_fields_app_def
  using parse_loop_closed [OF patterns_app_ok, of "[]" "text"] by simp


section \<open>The two variants extract the same fields\<close>

text \<open>
  C6. For every input text, \<^verbatim>\<open>parse_fields\<close> of \<^verbatim>\<open>ticket_app.py\<close> and
  \<^verbatim>\<open>parse_fields\<close> of \<^verbatim>\<open>ticket_sorter.py\<close> return equal rows.
\<close>

theorem parse_fields_variants_equal: "parse_fields_app text = parse_fields_sorter text"
  by (simp add: parse_fields_app_def parse_fields_sorter_def patterns_app_def patterns_sorter_def)

lemma last_dropWhile: "dropWhile P xs \<noteq> [] \<Longrightarrow> last (dropWhile P xs) = last xs"
proof -
  assume a: "dropWhile P xs \<noteq> []"
  have "last xs = last (takeWhile P xs @ dropWhile P xs)" by simp
  also have "\<dots> = last (dropWhile P xs)" using a by (rule last_appendR)
  finally show ?thesis by simp
qed

lemma strip_no_outer_space: "no_outer_space (strip g)"
proof (cases "strip g")
  case Nil
  then show ?thesis by (simp add: no_outer_space_def)
next
  case (Cons c cs)
  define u where "u = dropWhile isspace g"
  define v where "v = dropWhile isspace (rev u)"
  have sv: "strip g = rev v" by (simp add: strip_def u_def v_def)
  with Cons have vne: "v \<noteq> []" by auto
  then have une: "u \<noteq> []" by (auto simp: v_def)
  have "last (strip g) = hd v" using vne by (simp add: sv last_rev)
  moreover have "\<not> isspace (hd v)" using vne unfolding v_def by (rule hd_dropWhile)
  moreover have "hd (strip g) = last v" using vne by (simp add: sv hd_rev)
  moreover have "last v = last (rev u)" using vne unfolding v_def by (rule last_dropWhile)
  moreover have "last (rev u) = hd u" using une by (simp add: last_rev)
  moreover have "\<not> isspace (hd u)" using une unfolding u_def by (rule hd_dropWhile)
  ultimately have "\<not> isspace (hd (strip g)) \<and> \<not> isspace (last (strip g))" by simp
  with Cons show ?thesis by (simp add: no_outer_space_def)
qed

lemma strip_id: "\<forall>c \<in> set g. \<not> isspace c \<Longrightarrow> strip g = g"
proof -
  assume a: "\<forall>c \<in> set g. \<not> isspace c"
  have 1: "dropWhile isspace g = g" using a by (cases g) auto
  have "\<forall>c \<in> set (rev g). \<not> isspace c" using a by simp
  then have 2: "dropWhile isspace (rev g) = rev g" by (cases "rev g") auto
  show ?thesis by (simp add: strip_def 1 2)
qed

lemma value_of_cases:
  "value_of p text = u ''N/A'' \<or> (\<exists>g. first_group p text = Some g \<and> value_of p text = strip g)"
  by (auto simp: value_of_def split: option.splits)

lemma match_here_prefix:
  "\<forall>t \<in> set pre. t \<noteq> Open \<and> t \<noteq> Close \<Longrightarrow> match_here (pre @ rest) s = Some m \<Longrightarrow>
   \<exists>k. match_here rest (drop k s) = Some m"
proof (induction pre arbitrary: s)
  case Nil
  then have "match_here rest (drop 0 s) = Some m" by simp
  then show ?case by blast
next
  case (Cons t pre)
  then obtain a lo hi where t: "t = Rep a lo hi" by (cases t) auto
  with Cons.prems obtain j where "match_here (pre @ rest) (drop j s) = Some m"
    by (auto dest: try_down_Some)
  moreover have "\<forall>t \<in> set pre. t \<noteq> Open \<and> t \<noteq> Close" using Cons.prems by simp
  ultimately obtain k where "match_here rest (drop k (drop j s)) = Some m"
    using Cons.IH by blast
  then have "match_here rest (drop (k + j) s) = Some m" by simp
  then show ?case by blast
qed

lemma takeWhile_take_all:
  "j \<le> length (takeWhile P xs) \<Longrightarrow> \<forall>c \<in> set (take j xs). P c"
proof -
  assume a: "j \<le> length (takeWhile P xs)"
  have "take j (takeWhile P xs @ dropWhile P xs) = take j (takeWhile P xs)"
    using a by (simp del: takeWhile_dropWhile_id)
  then have "take j xs = take j (takeWhile P xs)" by (simp only: takeWhile_dropWhile_id)
  then have "set (take j xs) \<subseteq> set (takeWhile P xs)" by (simp add: set_take_subset)
  then show ?thesis by (auto dest: set_takeWhileD)
qed

lemma count_max_ok:
  assumes "j \<le> count_max a hi s"
  shows "j \<le> length s \<and> (\<forall>c \<in> set (take j s). atom_ok a c)"
proof (cases hi)
  case None
  with assms have j: "j \<le> length (takeWhile (atom_ok a) s)" by (simp add: count_max_def)
  moreover have "length (takeWhile (atom_ok a) s) \<le> length s" by (rule length_takeWhile_le)
  ultimately show ?thesis using takeWhile_take_all [OF j] by simp
next
  case (Some h)
  with assms have j: "j \<le> length (takeWhile (atom_ok a) (take h s))" by (simp add: count_max_def)
  have le: "length (takeWhile (atom_ok a) (take h s)) \<le> length (take h s)"
    by (rule length_takeWhile_le)
  with j have jh: "j \<le> h" "j \<le> length s" by simp_all
  from takeWhile_take_all [OF j] have "\<forall>c \<in> set (take j (take h s)). atom_ok a c" .
  moreover have "take j (take h s) = take j s" using jh by (simp add: min_def)
  ultimately show ?thesis using jh by simp
qed

lemma group_only:
  assumes "match_here [Open, Rep a lo hi, Close] s = Some m"
  shows "\<exists>g. group1 m = Some g \<and> lo \<le> length g \<and> (\<forall>c \<in> set g. atom_ok a c)"
proof -
  from assms obtain x where x: "try_down (\<lambda>k. match_here [Close] (drop k s)) lo (count_max a hi s) = Some x"
    and m: "m = (Some s, snd x)" by (auto simp: case_prod_beta)
  from try_down_Some [OF x] obtain j where j: "lo \<le> j" "j \<le> count_max a hi s"
    and c: "match_here [Close] (drop j s) = Some x" by blast
  from c have "snd x = Some (drop j s)" by auto
  with m have g: "group1 m = Some (take (length s - length (drop j s)) s)" by simp
  from count_max_ok [OF j(2)] have js: "j \<le> length s" and ok: "\<forall>c \<in> set (take j s). atom_ok a c"
    by simp_all
  from js have "length s - length (drop j s) = j" by simp
  with g have "group1 m = Some (take j s)" by simp
  moreover have "lo \<le> length (take j s)" using j(1) js by simp
  ultimately show ?thesis using ok by blast
qed

lemma first_group_class:
  assumes pre: "\<forall>t \<in> set pre. t \<noteq> Open \<and> t \<noteq> Close"
    and fg: "first_group (pre @ [Open, Rep a lo hi, Close]) text = Some g"
  shows "lo \<le> length g \<and> (\<forall>c \<in> set g. atom_ok a c)"
proof -
  from fg obtain m where rs: "re_search (pre @ [Open, Rep a lo hi, Close]) text = Some m"
    and g: "group1 m = Some g" by (auto simp: first_group_def split: Option.bind_splits)
  from re_search_Some [OF rs] obtain k
    where "match_here (pre @ [Open, Rep a lo hi, Close]) (drop k text) = Some m" by blast
  from match_here_prefix [OF pre this] obtain k'
    where "match_here [Open, Rep a lo hi, Close] (drop k' (drop k text)) = Some m" by blast
  from group_only [OF this] g show ?thesis by auto
qed

lemma lits_no_paren: "\<forall>t \<in> set (lits l @ [zero_or_more x]). t \<noteq> Open \<and> t \<noteq> Close"
  by (auto simp: lits_def zero_or_more_def)

lemma isdigit_coarse:
  "isdigit c \<Longrightarrow>
   (48 \<le> c \<and> c \<le> 57) \<or> (1632 \<le> c \<and> c \<le> 4249) \<or> (6112 \<le> c \<and> c \<le> 7257) \<or> 42528 \<le> c"
  unfolding isdigit_def nd_ranges_def by (simp; linarith)

lemma digit_not_space: "isdigit c \<Longrightarrow> \<not> isspace c"
  by (drule isdigit_coarse) (auto simp: isspace_def)

lemma fold_case_period: "fold_case (ord CHR ''.'') = fold_case c \<longleftrightarrow> c = ord CHR ''.''"
  by (auto simp: fold_case_def ord_def)

lemma unit_count_value:
  "value_of (lits ''Unit Count:'' @ [zero_or_more Space, Open, one_or_more Digit, Close]) text = u ''N/A'' \<or>
   all_digits (value_of (lits ''Unit Count:'' @ [zero_or_more Space, Open, one_or_more Digit, Close]) text)"
proof -
  let ?p = "lits ''Unit Count:'' @ [zero_or_more Space, Open, one_or_more Digit, Close]"
  from value_of_cases [of ?p "text"] show ?thesis
  proof
    assume "value_of ?p text = u ''N/A''" then show ?thesis by simp
  next
    assume "\<exists>g. first_group ?p text = Some g \<and> value_of ?p text = strip g"
    then obtain g where fg: "first_group ?p text = Some g" and v: "value_of ?p text = strip g" by blast
    from fg have "first_group ((lits ''Unit Count:'' @ [zero_or_more Space]) @ [Open, Rep Digit 1 None, Close]) text = Some g"
      by (simp add: one_or_more_def)
    from first_group_class [OF lits_no_paren this]
    have len: "1 \<le> length g" and ok: "\<forall>c \<in> set g. isdigit c" by simp_all
    from ok have "strip g = g" by (auto intro: strip_id dest: digit_not_space)
    with v len ok have "all_digits (value_of ?p text)" by (auto simp: all_digits_def list_all_iff)
    then show ?thesis by simp
  qed
qed

lemma measure_value:
  "value_of (lits ''Measure:'' @ [zero_or_more Space, Open, one_or_more (Bracket [IDigit, ILit (ord CHR ''.'')]), Close]) text = u ''N/A'' \<or>
   all_digits_or_periods (value_of (lits ''Measure:'' @ [zero_or_more Space, Open, one_or_more (Bracket [IDigit, ILit (ord CHR ''.'')]), Close]) text)"
proof -
  let ?p = "lits ''Measure:'' @ [zero_or_more Space, Open, one_or_more (Bracket [IDigit, ILit (ord CHR ''.'')]), Close]"
  from value_of_cases [of ?p "text"] show ?thesis
  proof
    assume "value_of ?p text = u ''N/A''" then show ?thesis by simp
  next
    assume "\<exists>g. first_group ?p text = Some g \<and> value_of ?p text = strip g"
    then obtain g where fg: "first_group ?p text = Some g" and v: "value_of ?p text = strip g" by blast
    from fg have "first_group ((lits ''Measure:'' @ [zero_or_more Space]) @ [Open, Rep (Bracket [IDigit, ILit (ord CHR ''.'')]) 1 None, Close]) text = Some g"
      by (simp add: one_or_more_def)
    from first_group_class [OF lits_no_paren this]
    have len: "1 \<le> length g" and ok: "\<forall>c \<in> set g. isdigit c \<or> c = ord CHR ''.''"
      by (simp_all add: fold_case_period)
    have "\<not> isspace (ord CHR ''.'')" by (simp add: isspace_def ord_def)
    with ok have "strip g = g" by (auto intro!: strip_id dest: digit_not_space)
    with v len ok have "all_digits_or_periods (value_of ?p text)"
      by (auto simp: all_digits_or_periods_def list_all_iff)
    then show ?thesis by simp
  qed
qed

lemma patterns_sorter_eq: "patterns_sorter = patterns_app"
  by (simp add: patterns_app_def patterns_sorter_def)

lemma parse_fields_sorter_closed:
  "parse_fields_sorter text = Inr (map (\<lambda>(f, p). (f, value_of p text)) patterns_app)"
  using parse_fields_app_closed [of "text"]
  by (simp add: parse_fields_sorter_def parse_fields_app_def patterns_sorter_eq)

lemma parse_fields_either:
  "parse_fields_app text = Inr row \<or> parse_fields_sorter text = Inr row \<Longrightarrow>
   row = map (\<lambda>(f, p). (f, value_of p text)) patterns_app"
  by (auto simp: parse_fields_app_closed parse_fields_sorter_closed)

lemma map_of_table:
  "distinct (map fst ps) \<Longrightarrow> (f, p) \<in> set ps \<Longrightarrow>
   map_of (map (\<lambda>(f, p). (f, h p)) ps) f = Some (h p)"
  by (simp add: map_of_map)

lemma field_names_table: "map fst patterns_app = field_names"
  by (simp add: patterns_app_def field_names_def)

lemmas eval_defs = value_of_def first_group_def labelled_def lits_def zero_or_more_def
  one_or_more_def count_max_def strip_def isspace_def fold_case_def u_def ord_def isdigit_def
  nd_ranges_def

lemma crew_example: "first_group (labelled ''Crew:'') (u ''Crew: A '') = Some (u ''A '')"
  by (simp add: eval_defs)

lemma crew_value: "value_of (labelled ''Crew:'') (u ''Crew: A '') = (u ''A'')"
  by (simp add: eval_defs)

text \<open>
  C1 (amended). For every input text, \<^verbatim>\<open>parse_fields\<close> returns a row whose keys
  are exactly the fifteen field names, in the order of the table; the value of a field is
  the first capture group of its regex at the leftmost match, with leading and trailing
  whitespace stripped, and it is \<^verbatim>\<open>N/A\<close> when the regex has no match in the text.
\<close>

theorem parse_fields_row:
  "\<exists>row. parse_fields_app text = Inr row \<and> parse_fields_sorter text = Inr row
     \<and> map fst row = field_names \<and> distinct field_names \<and> length field_names = 15
     \<and> (\<forall>(f, p) \<in> set patterns_app.
          map_of row f = Some (case first_group p text of None \<Rightarrow> u ''N/A'' | Some g \<Rightarrow> strip g)
          \<and> (first_group p text = None \<longleftrightarrow> re_search p text = None))"
proof -
  let ?row = "map (\<lambda>(f, p). (f, value_of p text)) patterns_app"
  have keys: "map fst ?row = field_names"
    using field_names_table by (simp add: case_prod_beta comp_def)
  have names: "distinct field_names" "length field_names = 15"
    by (simp_all add: field_names_def)
  have vals: "\<forall>(f, p) \<in> set patterns_app.
      map_of ?row f = Some (case first_group p text of None \<Rightarrow> u ''N/A'' | Some g \<Rightarrow> strip g)
      \<and> (first_group p text = None \<longleftrightarrow> re_search p text = None)"
  proof (clarify, rule conjI)
    fix f p assume fp: "(f, p) \<in> set patterns_app"
    from map_of_table [OF patterns_app_ok(1) fp, of "\<lambda>p. value_of p text"]
    show "map_of ?row f = Some (case first_group p text of None \<Rightarrow> u ''N/A'' | Some g \<Rightarrow> strip g)"
      by (simp add: value_of_def)
    from patterns_app_ok(2) fp have "has_group p" by auto
    then show "first_group p text = None \<longleftrightarrow> re_search p text = None"
      by (rule first_group_None)
  qed
  show ?thesis
    using keys names vals parse_fields_app_closed [of "text"] parse_fields_sorter_closed [of "text"]
    by blast
qed

theorem parse_fields_row_witness:
  "\<exists>row. parse_fields_app (u ''Crew: A '') = Inr row \<and> map fst row = field_names
     \<and> map_of row ''Crew'' = Some (u ''A'')"
proof -
  have mem: "(''Crew'', labelled ''Crew:'') \<in> set patterns_app"
    by (simp add: patterns_app_def)
  from parse_fields_row [of "(u ''Crew: A '')"] obtain row
    where r: "parse_fields_app (u ''Crew: A '') = Inr row" "map fst row = field_names"
      and v: "\<forall>(f, p) \<in> set patterns_app.
          map_of row f = Some (case first_group p (u ''Crew: A '') of None \<Rightarrow> u ''N/A'' | Some g \<Rightarrow> strip g)
          \<and> (first_group p (u ''Crew: A '') = None \<longleftrightarrow> re_search p (u ''Crew: A '') = None)"
    by blast
  from v mem have "map_of row ''Crew'' =
      Some (case first_group (labelled ''Crew:'') (u ''Crew: A '') of None \<Rightarrow> u ''N/A'' | Some g \<Rightarrow> strip g)"
    by blast
  then have "map_of row ''Crew'' = Some (strip (u ''A ''))" by (simp add: crew_example)
  moreover have "strip (u ''A '') = (u ''A'')" by (simp add: eval_defs)
  ultimately show ?thesis using r by auto
qed

text \<open>
  C1 as stated fails where the captured group ends in whitespace. In the text
  \<^verbatim>\<open>Crew: A \<close> (with a final space) the first capture group of the crew regex is
  \<^verbatim>\<open>A \<close>, and the row holds \<^verbatim>\<open>A\<close>.
\<close>

theorem parse_fields_group_counterexample:
  "first_group (labelled ''Crew:'') (u ''Crew: A '') = Some (u ''A '')
   \<and> map_of (projr (parse_fields_app (u ''Crew: A ''))) ''Crew'' = Some (u ''A'')
   \<and> (u ''A'') \<noteq> (u ''A '')"
proof -
  have mem: "(''Crew'', labelled ''Crew:'') \<in> set patterns_app"
    by (simp add: patterns_app_def)
  have "map_of (projr (parse_fields_app (u ''Crew: A ''))) ''Crew''
      = Some (value_of (labelled ''Crew:'') (u ''Crew: A ''))"
    using map_of_table [OF patterns_app_ok(1) mem, of "\<lambda>p. value_of p (u ''Crew: A '')"]
    by (simp add: parse_fields_app_closed)
  moreover have "u ''A'' \<noteq> u ''A ''" by (simp add: u_def ord_def)
  ultimately show ?thesis by (simp add: crew_example crew_value)
qed

text \<open>
  C8. Every value of a row returned by \<^verbatim>\<open>parse_fields\<close> is \<^verbatim>\<open>N/A\<close> or a string
  without leading or trailing whitespace.
\<close>

theorem parse_fields_values_stripped:
  assumes "parse_fields_app text = Inr row \<or> parse_fields_sorter text = Inr row"
    and "(f, v) \<in> set row"
  shows "v = u ''N/A'' \<or> no_outer_space v"
proof -
  from assms obtain p where "v = value_of p text"
    by (auto dest!: parse_fields_either)
  with value_of_cases [of p "text"] show ?thesis
    by (auto simp: strip_no_outer_space)
qed

theorem parse_fields_values_stripped_witness:
  "parse_fields_app (u ''Crew: A '') = Inr (map (\<lambda>(f, p). (f, value_of p (u ''Crew: A ''))) patterns_app)
   \<and> (''Crew'', (u ''A'')) \<in> set (map (\<lambda>(f, p). (f, value_of p (u ''Crew: A ''))) patterns_app)
   \<and> (u ''A'') \<noteq> u ''N/A'' \<and> no_outer_space (u ''A'')"
proof -
  let ?row = "map (\<lambda>(f, p). (f, value_of p (u ''Crew: A ''))) patterns_app"
  have r: "parse_fields_app (u ''Crew: A '') = Inr ?row" by (rule parse_fields_app_closed)
  have "(''Crew'', value_of (labelled ''Crew:'') (u ''Crew: A '')) \<in> set ?row"
    by (simp add: patterns_app_def)
  then have m: "(''Crew'', (u ''A'')) \<in> set ?row" by (simp only: crew_value)
  from parse_fields_values_stripped [OF disjI1 [OF r] m]
  have "(u ''A'') = u ''N/A'' \<or> no_outer_space (u ''A'')" .
  moreover have ne: "u ''A'' \<noteq> u ''N/A''" by (simp add: u_def ord_def)
  ultimately have "no_outer_space (u ''A'')" by simp
  with r m ne show ?thesis by simp
qed

text \<open>
  C10 (amended). In every row returned by \<^verbatim>\<open>parse_fields\<close>, the value of
  \<^verbatim>\<open>Unit_Count\<close> is \<^verbatim>\<open>N/A\<close> or a non-empty string of characters of the class
  \<^verbatim>\<open>\d\<close>, the decimal digits of every script, and the value of \<^verbatim>\<open>Measure\<close> is
  \<^verbatim>\<open>N/A\<close> or a non-empty string of such digits and periods.
\<close>

theorem unit_count_measure_shape:
  assumes "parse_fields_app text = Inr row \<or> parse_fields_sorter text = Inr row"
  shows "\<exists>cnt msr. map_of row ''Unit_Count'' = Some cnt \<and> (cnt = u ''N/A'' \<or> all_digits cnt)
     \<and> map_of row ''Measure'' = Some msr \<and> (msr = u ''N/A'' \<or> all_digits_or_periods msr)"
proof -
  let ?pu = "lits ''Unit Count:'' @ [zero_or_more Space, Open, one_or_more Digit, Close]"
  let ?pm = "lits ''Measure:'' @ [zero_or_more Space, Open, one_or_more (Bracket [IDigit, ILit (ord CHR ''.'')]), Close]"
  from assms have row: "row = map (\<lambda>(f, p). (f, value_of p text)) patterns_app"
    by (rule parse_fields_either)
  have "(''Unit_Count'', ?pu) \<in> set patterns_app" by (simp add: patterns_app_def)
  from map_of_table [OF patterns_app_ok(1) this, of "\<lambda>p. value_of p text"]
  have u: "map_of row ''Unit_Count'' = Some (value_of ?pu text)" by (simp add: row)
  have "(''Measure'', ?pm) \<in> set patterns_app" by (simp add: patterns_app_def)
  from map_of_table [OF patterns_app_ok(1) this, of "\<lambda>p. value_of p text"]
  have m: "map_of row ''Measure'' = Some (value_of ?pm text)" by (simp add: row)
  from u m unit_count_value [of "text"] measure_value [of "text"] show ?thesis by blast
qed

lemma unit_example:
  "value_of (lits ''Unit Count:'' @ [zero_or_more Space, Open, one_or_more Digit, Close])
     (u ''Measure:1.5 unit count: 30x'') = (u ''30'')"
  by (simp add: eval_defs)

lemma measure_example:
  "value_of (lits ''Measure:'' @ [zero_or_more Space, Open, one_or_more (Bracket [IDigit, ILit (ord CHR ''.'')]), Close])
     (u ''Measure:1.5 unit count: 30x'') = (u ''1.5'')"
  by (simp add: eval_defs)

theorem unit_count_measure_shape_witness:
  "map_of (projr (parse_fields_app (u ''Measure:1.5 unit count: 30x''))) ''Unit_Count'' = Some (u ''30'')
   \<and> all_digits (u ''30'')
   \<and> map_of (projr (parse_fields_app (u ''Measure:1.5 unit count: 30x''))) ''Measure'' = Some (u ''1.5'')
   \<and> all_digits_or_periods (u ''1.5'')"
proof -
  let ?t = "(u ''Measure:1.5 unit count: 30x'')"
  let ?pu = "lits ''Unit Count:'' @ [zero_or_more Space, Open, one_or_more Digit, Close]"
  let ?pm = "lits ''Measure:'' @ [zero_or_more Space, Open, one_or_more (Bracket [IDigit, ILit (ord CHR ''.'')]), Close]"
  let ?row = "map (\<lambda>(f, p). (f, value_of p ?t)) patterns_app"
  have r: "parse_fields_app ?t = Inr ?row" by (rule parse_fields_app_closed)
  have "(''Unit_Count'', ?pu) \<in> set patterns_app" by (simp add: patterns_app_def)
  from map_of_table [OF patterns_app_ok(1) this, of "\<lambda>p. value_of p ?t"]
  have u: "map_of ?row ''Unit_Count'' = Some (u ''30'')" by (simp only: unit_example)
  have "(''Measure'', ?pm) \<in> set patterns_app" by (simp add: patterns_app_def)
  from map_of_table [OF patterns_app_ok(1) this, of "\<lambda>p. value_of p ?t"]
  have m: "map_of ?row ''Measure'' = Some (u ''1.5'')" by (simp only: measure_example)
  from unit_count_measure_shape [OF disjI1 [OF r]] u m
  have "((u ''30'') = u ''N/A'' \<or> all_digits (u ''30'')) \<and> ((u ''1.5'') = u ''N/A'' \<or> all_digits_or_periods (u ''1.5''))"
    by auto
  moreover have "u ''30'' \<noteq> u ''N/A''" "u ''1.5'' \<noteq> u ''N/A''" by (simp_all add: u_def ord_def)
  ultimately have "all_digits (u ''30'') \<and> all_digits_or_periods (u ''1.5'')" by simp
  with u m show ?thesis by (simp only: r sum.sel)
qed



lemma arabic_example:
  "value_of (lits ''Unit Count:'' @ [zero_or_more Space, Open, one_or_more Digit, Close])
     (u ''Unit Count: '' @ [1635, 1636]) = [1635, 1636]"
  by (simp add: eval_defs)

text \<open>
  C10 as stated, with the decimal digits \<^verbatim>\<open>0\<close> to \<^verbatim>\<open>9\<close>, fails on the digits of
  another script: for the text \<^verbatim>\<open>Unit Count: \<close> followed by U+0663 U+0664 (the
  Arabic-Indic digits three and four) the row holds these two code points.
\<close>

theorem unit_count_ascii_counterexample:
  "map_of (projr (parse_fields_app (u ''Unit Count: '' @ [1635, 1636]))) ''Unit_Count''
     = Some [1635, 1636]
   \<and> [1635, 1636] \<noteq> u ''N/A''
   \<and> \<not> list_all ascii_digit [1635, 1636]"
proof -
  let ?t = "u ''Unit Count: '' @ [1635, 1636]"
  let ?pu = "lits ''Unit Count:'' @ [zero_or_more Space, Open, one_or_more Digit, Close]"
  have mem: "(''Unit_Count'', ?pu) \<in> set patterns_app" by (simp add: patterns_app_def)
  have "map_of (projr (parse_fields_app ?t)) ''Unit_Count'' = Some (value_of ?pu ?t)"
    using map_of_table [OF patterns_app_ok(1) mem, of "\<lambda>p. value_of p ?t"]
    by (simp add: parse_fields_app_closed)
  then have "map_of (projr (parse_fields_app ?t)) ''Unit_Count'' = Some [1635, 1636]"
    by (simp only: arabic_example)
  moreover have "[1635, 1636] \<noteq> u ''N/A''" by (simp add: u_def)
  moreover have "\<not> list_all ascii_digit [1635, 1636]" by (simp add: ascii_digit_def)
  ultimately show ?thesis by blast
qed

lemma parse_fields_sorter_app: "parse_fields_sorter = parse_fields_app"
  by (rule ext) (simp add: parse_fields_sorter_def parse_fields_app_def patterns_sorter_eq)

lemma parse_fields_app_total: "\<exists>r. parse_fields_app t = Inr r"
  by (simp add: parse_fields_app_closed)

lemma ocr_loop_trace:
  "\<exists>k \<le> length imgs.
     fst (ocr_loop w parse_fields_app imgs acc) = concat (map (page_calls w) (take k imgs))
     \<and> (\<forall>rows. snd (ocr_loop w parse_fields_app imgs acc) = Inr rows \<longrightarrow>
          k = length imgs \<and> (\<exists>rs. rows = acc @ rs \<and> list_all2 (page_row w) imgs rs))"
proof (induction imgs arbitrary: acc)
  case Nil
  then show ?case by simp
next
  case (Cons img imgs)
  show ?case
  proof (cases "image_to_string w img")
    case (Inl e)
    then have "fst (ocr_loop w parse_fields_app (img # imgs) acc)
        = concat (map (page_calls w) (take 1 (img # imgs)))"
      and "\<forall>rows. snd (ocr_loop w parse_fields_app (img # imgs) acc) \<noteq> Inr rows"
      by (simp_all add: page_calls_def)
    then show ?thesis by (intro exI [of _ 1]) simp
  next
    case (Inr t)
    obtain r where r: "parse_fields_app t = Inr r" using parse_fields_app_total by blast
    from Cons.IH [of "acc @ [r]"] obtain k where k: "k \<le> length imgs"
      and calls: "fst (ocr_loop w parse_fields_app imgs (acc @ [r])) = concat (map (page_calls w) (take k imgs))"
      and res: "\<forall>rows. snd (ocr_loop w parse_fields_app imgs (acc @ [r])) = Inr rows \<longrightarrow>
          k = length imgs \<and> (\<exists>rs. rows = (acc @ [r]) @ rs \<and> list_all2 (page_row w) imgs rs)"
      by blast
    have step: "ocr_loop w parse_fields_app (img # imgs) acc
        = (Ocr img # ParseFields t # fst (ocr_loop w parse_fields_app imgs (acc @ [r])),
           snd (ocr_loop w parse_fields_app imgs (acc @ [r])))"
      by (simp add: Inr r case_prod_beta)
    have pr: "page_row w img r" by (simp add: page_row_def Inr r)
    have c: "fst (ocr_loop w parse_fields_app (img # imgs) acc)
        = concat (map (page_calls w) (take (Suc k) (img # imgs)))"
      by (simp add: step calls page_calls_def Inr del: ocr_loop.simps)
    have "\<forall>rows. snd (ocr_loop w parse_fields_app (img # imgs) acc) = Inr rows \<longrightarrow>
          Suc k = length (img # imgs) \<and> (\<exists>rs. rows = acc @ rs \<and> list_all2 (page_row w) (img # imgs) rs)"
    proof (intro allI impI)
      fix rows assume "snd (ocr_loop w parse_fields_app (img # imgs) acc) = Inr rows"
      then have "snd (ocr_loop w parse_fields_app imgs (acc @ [r])) = Inr rows"
        by (simp add: step del: ocr_loop.simps)
      with res obtain rs where "k = length imgs" "rows = (acc @ [r]) @ rs" "list_all2 (page_row w) imgs rs"
        by blast
      then have "Suc k = length (img # imgs) \<and> rows = acc @ (r # rs) \<and> list_all2 (page_row w) (img # imgs) (r # rs)"
        using pr by simp
      then show "Suc k = length (img # imgs) \<and> (\<exists>rs. rows = acc @ rs \<and> list_all2 (page_row w) (img # imgs) rs)"
        by blast
    qed
    with c k show ?thesis by (intro exI [of _ "Suc k"]) simp
  qed
qed

lemma ocr_loop_returns:
  "(\<exists>rows. snd (ocr_loop w parse_fields_app imgs acc) = Inr rows)
   \<longleftrightarrow> (\<forall>img \<in> set imgs. \<exists>t. image_to_string w img = Inr t)"
proof (induction imgs arbitrary: acc)
  case Nil
  then show ?case by simp
next
  case (Cons img imgs)
  show ?case
  proof (cases "image_to_string w img")
    case (Inl e)
    then show ?thesis by simp
  next
    case (Inr t)
    obtain r where r: "parse_fields_app t = Inr r" using parse_fields_app_total by blast
    have "snd (ocr_loop w parse_fields_app (img # imgs) acc)
        = snd (ocr_loop w parse_fields_app imgs (acc @ [r]))"
      by (simp add: Inr r case_prod_beta)
    with Cons.IH [of "acc @ [r]"] Inr show ?thesis by simp
  qed
qed

lemma process_file_sorter_alt:
  "process_file_sorter w p =
     (case loaded w p of
        Inl e \<Rightarrow> ([loader_call p], Inl e)
      | Inr imgs \<Rightarrow> (loader_call p # fst (ocr_loop w parse_fields_app imgs []),
                     snd (ocr_loop w parse_fields_app imgs [])))"
  by (simp add: process_file_sorter_def loaded_def loader_call_def parse_fields_sorter_app
      case_prod_beta split: sum.splits)

lemma process_file_app_sorter:
  "process_file_app w p =
     (fst (process_file_sorter w p),
      case snd (process_file_sorter w p) of Inl e \<Rightarrow> Inl (ocr_error e) | Inr d \<Rightarrow> Inr d)"
  by (simp add: process_file_app_def process_file_sorter_def parse_fields_sorter_app
      case_prod_beta split: sum.splits)

lemma process_file_variants:
  assumes "pf = process_file_app \<or> pf = process_file_sorter"
  shows "fst (pf w p) = fst (process_file_sorter w p)"
    and "snd (pf w p) = Inr rows \<longleftrightarrow> snd (process_file_sorter w p) = Inr rows"
  using assms by (auto simp: process_file_app_sorter split: sum.splits)

lemma process_file_sorter_trace:
  "case loaded w path of
     Inl e \<Rightarrow> fst (process_file_sorter w path) = [loader_call path]
              \<and> (\<forall>rows. snd (process_file_sorter w path) \<noteq> Inr rows)
   | Inr imgs \<Rightarrow>
       (\<exists>k \<le> length imgs.
          fst (process_file_sorter w path) = loader_call path # concat (map (page_calls w) (take k imgs))
          \<and> (\<forall>rows. snd (process_file_sorter w path) = Inr rows \<longrightarrow>
                k = length imgs \<and> list_all2 (page_row w) imgs rows))"
proof (cases "loaded w path")
  case (Inl e)
  then show ?thesis by (simp add: process_file_sorter_alt)
next
  case (Inr imgs)
  from ocr_loop_trace [of imgs w "[]"] obtain k where "k \<le> length imgs"
    and "fst (ocr_loop w parse_fields_app imgs []) = concat (map (page_calls w) (take k imgs))"
    and "\<forall>rows. snd (ocr_loop w parse_fields_app imgs []) = Inr rows \<longrightarrow>
          k = length imgs \<and> (\<exists>rs. rows = [] @ rs \<and> list_all2 (page_row w) imgs rs)"
    by blast
  then have "k \<le> length imgs \<and>
      fst (process_file_sorter w path) = loader_call path # concat (map (page_calls w) (take k imgs))
      \<and> (\<forall>rows. snd (process_file_sorter w path) = Inr rows \<longrightarrow>
            k = length imgs \<and> list_all2 (page_row w) imgs rows)"
    by (simp add: process_file_sorter_alt Inr)
  then show ?thesis by (auto simp: Inr)
qed

lemma is_pdf_a: "is_pdf (u ''a.pdf'')"
  by (simp add: is_pdf_def endswith_def ascii_lower_def u_def ord_def)

lemma is_pdf_b: "is_pdf (u ''b.pdf'')"
  by (simp add: is_pdf_def endswith_def ascii_lower_def u_def ord_def)

lemma is_pdf_t: "is_pdf (u ''t.PDF'')"
  by (simp add: is_pdf_def endswith_def ascii_lower_def u_def ord_def)

lemma not_pdf_bad: "\<not> is_pdf (u ''bad.png'')"
  by (simp add: is_pdf_def endswith_def ascii_lower_def u_def ord_def)

lemma not_pdf_ok: "\<not> is_pdf (u ''ok.png'')"
  by (simp add: is_pdf_def endswith_def ascii_lower_def u_def ord_def)

lemma sample_loaded:
  "loaded sample_world (u ''a.pdf'') = Inr [10, 11]"
  "loaded sample_world (u ''b.pdf'') = Inr [11, 10]"
  "loaded sample_world (u ''t.PDF'') = Inr [11, 12]"
  "loaded sample_world (u ''ok.png'') = Inr [13]"
  "loaded sample_world (u ''bad.png'') = Inl (Exn (u ''cannot identify image file''))"
  by (simp_all add: loaded_def is_pdf_a is_pdf_b is_pdf_t not_pdf_bad not_pdf_ok sample_world_def)
    (simp_all add: u_def ord_def)

lemma sample_ocr:
  "image_to_string sample_world 10 = Inl (Exn (u ''tesseract failed''))"
  "image_to_string sample_world 11 = Inr (u ''Crew: A '')"
  "image_to_string sample_world 12 = Inr (u ''Crew: A '')"
  "image_to_string sample_world 13 = Inr (u ''Crew: A '')"
  by (simp_all add: sample_world_def)

lemma sample_parse: "parse_fields_app (u ''Crew: A '') = Inr sample_row"
  by (simp add: parse_fields_app_closed sample_row_def)




text \<open>
  C9 (amended). For a path that does not end with \<^verbatim>\<open>.pdf\<close> case-insensitively,
  \<^verbatim>\<open>process_file\<close> returns exactly when opening the image and the OCR call both
  succeed, and the list it returns then holds exactly one row; otherwise it raises.
\<close>

theorem process_file_single_image:
  assumes "pf = process_file_app \<or> pf = process_file_sorter" and "\<not> is_pdf path"
  shows "(\<forall>rows. snd (pf w path) = Inr rows \<longrightarrow> length rows = 1)
     \<and> ((\<exists>rows. snd (pf w path) = Inr rows)
          \<longleftrightarrow> (\<exists>img t. image_open w path = Inr img \<and> image_to_string w img = Inr t))"
proof -
  have eq: "\<And>rows. snd (pf w path) = Inr rows \<longleftrightarrow> snd (process_file_sorter w path) = Inr rows"
    using process_file_variants [OF assms(1)] by blast
  show ?thesis
  proof (cases "image_open w path")
    case (Inl e)
    then have "loaded w path = Inl e" using assms(2) by (simp add: loaded_def)
    then have "\<forall>rows. snd (process_file_sorter w path) \<noteq> Inr rows"
      by (simp add: process_file_sorter_alt)
    with Inl show ?thesis by (simp add: eq)
  next
    case (Inr img)
    then have l: "loaded w path = Inr [img]" using assms(2) by (simp add: loaded_def)
    have one: "\<forall>rows. snd (process_file_sorter w path) = Inr rows \<longrightarrow> length rows = 1"
    proof (intro allI impI)
      fix rows assume "snd (process_file_sorter w path) = Inr rows"
      with process_file_sorter_trace [of w path] have "list_all2 (page_row w) [img] rows"
        by (auto simp: l)
      then have "length [img] = length rows" by (rule list_all2_lengthD)
      then show "length rows = 1" by simp
    qed
    have "(\<exists>rows. snd (process_file_sorter w path) = Inr rows) \<longleftrightarrow> (\<exists>t. image_to_string w img = Inr t)"
      using ocr_loop_returns [of w "[img]" "[]"] by (simp add: process_file_sorter_alt l)
    with one Inr show ?thesis by (simp add: eq)
  qed
qed

theorem process_file_single_image_witness:
  "\<not> is_pdf (u ''ok.png'')
   \<and> snd (process_file_sorter sample_world (u ''ok.png'')) = Inr [sample_row]
   \<and> length [sample_row] = 1"
proof -
  have n: "\<not> is_pdf (u ''ok.png'')" by (rule not_pdf_ok)
  have l: "loaded sample_world (u ''ok.png'') = Inr [13]" by (rule sample_loaded)
  have r: "snd (process_file_sorter sample_world (u ''ok.png'')) = Inr [sample_row]"
    by (simp add: process_file_sorter_alt l sample_ocr sample_parse)
  from process_file_single_image [of process_file_sorter "u ''ok.png''" sample_world, OF _ n] r
  have "length [sample_row] = 1" by blast
  with n r show ?thesis by simp
qed

text \<open>
  C9 as stated fails for a file that cannot be opened: \<^verbatim>\<open>bad.png\<close> is not a PDF and
  \<^verbatim>\<open>process_file\<close> raises instead of returning a list.
\<close>

theorem process_file_single_image_counterexample:
  "\<not> is_pdf (u ''bad.png'')
   \<and> snd (process_file_sorter sample_world (u ''bad.png''))
       = Inl (Exn (u ''cannot identify image file''))
   \<and> snd (process_file_app sample_world (u ''bad.png''))
       = Inl (Exn (u ''OCR Error: '' @ u ''cannot identify image file''))"
proof -
  have n: "\<not> is_pdf (u ''bad.png'')" by (rule not_pdf_bad)
  have l: "loaded sample_world (u ''bad.png'') = Inl (Exn (u ''cannot identify image file''))"
    by (rule sample_loaded)
  have "snd (process_file_sorter sample_world (u ''bad.png'')) = Inl (Exn (u ''cannot identify image file''))"
    by (simp add: process_file_sorter_alt l)
  with n show ?thesis by (simp add: process_file_app_sorter)
qed

lemma run_loop_Cons:
  "run_loop pf w n i (path # paths) acc =
     file_events pf w n i path @ run_loop pf w n (i + 1) paths (acc @ rows_of pf w path)"
  by (simp add: file_events_def rows_of_def Let_def case_prod_beta split: sum.splits exn.splits)

lemma finished_of_append: "finished_of (xs @ ys) = finished_of xs @ finished_of ys"
  by (induction xs rule: finished_of.induct) simp_all

lemma progress_of_append: "progress_of (xs @ ys) = progress_of xs @ progress_of ys"
  by (induction xs rule: progress_of.induct) simp_all

lemma loads_of_append: "loads_of (xs @ ys) = loads_of xs @ loads_of ys"
  by (induction xs rule: loads_of.induct) simp_all

lemma finished_of_Ext: "finished_of (map Ext cs) = []"
  by (induction cs) simp_all

lemma progress_of_Ext: "progress_of (map Ext cs) = []"
  by (induction cs) simp_all

lemma finished_of_file_events: "finished_of (file_events pf w n i path) = []"
  by (simp add: file_events_def finished_of_append finished_of_Ext split: sum.splits exn.splits)

lemma progress_of_file_events: "progress_of (file_events pf w n i path) = [prog_val (i + 1) n]"
  by (simp add: file_events_def progress_of_append progress_of_Ext split: sum.splits exn.splits)

declare str_nat.simps [simp del]

lemma run_loop_finished:
  "finished_of (run_loop pf w n i paths acc) = [acc @ concat (map (rows_of pf w) paths)]"
proof (induction paths arbitrary: i acc)
  case Nil
  then show ?case by simp
next
  case (Cons path paths)
  show ?case
    by (simp add: run_loop_Cons finished_of_append finished_of_file_events Cons.IH
        del: run_loop.simps)
qed



lemma run_loop_progress:
  "progress_of (run_loop pf w n i paths acc)
     = map (\<lambda>k. prog_val k n) [Suc i ..< Suc i + length paths]"
proof (induction paths arbitrary: i acc)
  case Nil
  then show ?case by simp
next
  case (Cons path paths)
  have "[Suc i ..< Suc i + length (path # paths)] = Suc i # [Suc (Suc i) ..< Suc (Suc i) + length paths]"
    using upt_conv_Cons [of "Suc i" "Suc i + length (path # paths)"] by simp
  then show ?case
    by (simp add: run_loop_Cons progress_of_append progress_of_file_events Cons.IH
        del: run_loop.simps upt_Suc)
qed

lemma loads_of_ocr_loop: "loads_of (map Ext (fst (ocr_loop w parse imgs acc))) = []"
proof (induction imgs arbitrary: acc)
  case Nil
  then show ?case by simp
next
  case (Cons img imgs)
  show ?case
    by (simp add: Cons.IH case_prod_beta split: sum.splits)
qed

lemma loads_of_process_file:
  assumes "pf = process_file_app \<or> pf = process_file_sorter"
  shows "loads_of (map Ext (fst (pf w path))) = [path]"
proof -
  have "loads_of (map Ext (fst (process_file_sorter w path))) = [path]"
    by (simp add: process_file_sorter_alt loader_call_def loads_of_ocr_loop split: sum.splits)
  with process_file_variants(1) [OF assms] show ?thesis by simp
qed

lemma loads_of_file_events:
  assumes "pf = process_file_app \<or> pf = process_file_sorter"
  shows "loads_of (file_events pf w n i path) = [path]"
  by (simp add: file_events_def loads_of_append loads_of_process_file [OF assms]
      split: sum.splits exn.splits)

lemma run_loop_loads:
  assumes "pf = process_file_app \<or> pf = process_file_sorter"
  shows "loads_of (run_loop pf w n i paths acc) = paths"
proof (induction paths arbitrary: i acc)
  case Nil
  then show ?case by simp
next
  case (Cons path paths)
  show ?case
    by (simp add: run_loop_Cons loads_of_append loads_of_file_events [OF assms] Cons.IH
        del: run_loop.simps)
qed

lemma file_events_error:
  assumes "snd (pf w path) = Inl (Exn msg)"
  shows "Emit (Status (u ''Error in '' @ basename w path @ u '': '' @ msg))
     \<in> set (file_events pf w n i path)"
proof -
  have "file_events pf w n i path =
      (Emit (Status (u ''Processing ('' @ str_nat (i + 1) @ u ''/'' @ str_nat n @ u ''): '' @ basename w path))
       # map Ext (fst (pf w path)))
      @ Emit (Status (u ''Error in '' @ basename w path @ u '': '' @ msg))
      # [Emit (Progress (prog_val (i + 1) n))]"
    by (simp add: file_events_def assms)
  then have "\<exists>ys zs. file_events pf w n i path =
      ys @ Emit (Status (u ''Error in '' @ basename w path @ u '': '' @ msg)) # zs"
    by blast
  then show ?thesis by (simp only: in_set_conv_decomp)
qed

lemma run_loop_error_status:
  "j < length paths \<Longrightarrow> snd (pf w (paths ! j)) = Inl (Exn msg) \<Longrightarrow>
   Emit (Status (u ''Error in '' @ basename w (paths ! j) @ u '': '' @ msg))
     \<in> set (run_loop pf w n i paths acc)"
proof (induction paths arbitrary: i acc j)
  case Nil
  then show ?case by simp
next
  case (Cons path paths)
  have split: "set (run_loop pf w n i (path # paths) acc)
      = set (file_events pf w n i path) \<union> set (run_loop pf w n (i + 1) paths (acc @ rows_of pf w path))"
    by (simp only: run_loop_Cons set_append)
  show ?case
  proof (cases j)
    case 0
    then have p: "(path # paths) ! j = path" by simp
    with Cons.prems(2) have "snd (pf w path) = Inl (Exn msg)" by simp
    then have "Emit (Status (u ''Error in '' @ basename w path @ u '': '' @ msg))
        \<in> set (file_events pf w n i path)"
      by (rule file_events_error)
    then show ?thesis unfolding split p by (rule UnI1)
  next
    case (Suc j')
    then have p: "(path # paths) ! j = paths ! j'" by simp
    from Suc Cons.prems have "j' < length paths" "snd (pf w (paths ! j')) = Inl (Exn msg)"
      by simp_all
    then have "Emit (Status (u ''Error in '' @ basename w (paths ! j') @ u '': '' @ msg))
        \<in> set (run_loop pf w n (i + 1) paths (acc @ rows_of pf w path))"
      by (rule Cons.IH)
    then show ?thesis unfolding split p by (rule UnI2)
  qed
qed

lemma rows_of_filter:
  "concat (map (rows_of pf w) (filter (\<lambda>p. \<not> isl (snd (pf w p))) paths))
     = concat (map (rows_of pf w) paths)"
  by (induction paths) (auto simp: rows_of_def split: sum.splits)

lemma run_closed:
  assumes "(pf, run) = (process_file_app, run_app) \<or> (pf, run) = (process_file_sorter, run_sorter)"
  shows "run w paths = run_loop pf w (length paths) 0 paths []"
    and "pf = process_file_app \<or> pf = process_file_sorter"
  using assms by (auto simp: run_app_def run_sorter_def)

lemma sample_results:
  "snd (process_file_app sample_world (u ''t.PDF'')) = Inr [sample_row, sample_row]"
  "snd (process_file_app sample_world (u ''ok.png'')) = Inr [sample_row]"
  "snd (process_file_sorter sample_world (u ''ok.png'')) = Inr [sample_row]"
  "snd (process_file_sorter sample_world (u ''bad.png'')) = Inl (Exn (u ''cannot identify image file''))"
  by (simp_all add: process_file_app_sorter process_file_sorter_alt sample_loaded sample_ocr sample_parse)



text \<open>
  C2 as stated counts the row of every recognized page. The first page of \<^verbatim>\<open>b.pdf\<close>
  is recognized and parsed into a row, OCR raises on the second page, and the finished
  list is empty.
\<close>

theorem run_recognized_page_counterexample:
  "fst (process_file_app sample_world (u ''b.pdf''))
     = [Rasterize (u ''b.pdf''), Ocr 11, ParseFields (u ''Crew: A ''), Ocr 10]
   \<and> parse_fields_app (u ''Crew: A '') = Inr sample_row
   \<and> finished_of (run_app sample_world [u ''b.pdf'']) = [[]]
   \<and> finished_of (run_sorter sample_world [u ''b.pdf'']) = [[]]"
proof -
  have c: "fst (process_file_sorter sample_world (u ''b.pdf''))
      = [Rasterize (u ''b.pdf''), Ocr 11, ParseFields (u ''Crew: A ''), Ocr 10]"
    by (simp add: process_file_sorter_alt sample_loaded loader_call_def is_pdf_b sample_ocr
        sample_parse)
  have r: "snd (process_file_sorter sample_world (u ''b.pdf'')) = Inl (Exn (u ''tesseract failed''))"
    by (simp add: process_file_sorter_alt sample_loaded sample_ocr sample_parse)
  have a: "finished_of (run_app sample_world [u ''b.pdf'']) = [[]]"
    by (simp add: run_app_def run_loop_finished rows_of_def process_file_app_sorter r
        del: run_loop.simps)
  have b: "finished_of (run_sorter sample_world [u ''b.pdf'']) = [[]]"
    by (simp add: run_sorter_def run_loop_finished rows_of_def r del: run_loop.simps)
  from c a b show ?thesis by (simp add: process_file_app_sorter sample_parse)
qed

text \<open>
  C3. When \<^verbatim>\<open>process_file\<close> raises for a file, \<^verbatim>\<open>run\<close> emits the status
  \<^verbatim>\<open>Error in\<close> with the name of that file and the message, the file contributes no row,
  every file of the list is still loaded, in order, with one progress value each, and the
  finished list holds exactly the rows of the files for which \<^verbatim>\<open>process_file\<close> returned.
\<close>

theorem run_survives_failure:
  assumes "(pf, run) = (process_file_app, run_app) \<or> (pf, run) = (process_file_sorter, run_sorter)"
    and "j < length paths" and "snd (pf w (paths ! j)) = Inl (Exn msg)"
  shows "Emit (Status (u ''Error in '' @ basename w (paths ! j) @ u '': '' @ msg)) \<in> set (run w paths)
     \<and> rows_of pf w (paths ! j) = []
     \<and> loads_of (run w paths) = paths
     \<and> length (progress_of (run w paths)) = length paths
     \<and> finished_of (run w paths)
         = [concat (map (rows_of pf w) (filter (\<lambda>p. \<not> isl (snd (pf w p))) paths))]"
proof -
  note rc = run_closed [OF assms(1)]
  have a: "Emit (Status (u ''Error in '' @ basename w (paths ! j) @ u '': '' @ msg)) \<in> set (run w paths)"
    unfolding rc(1) using assms(2,3) by (rule run_loop_error_status)
  have b: "rows_of pf w (paths ! j) = []" by (simp add: rows_of_def assms(3))
  have c: "loads_of (run w paths) = paths" unfolding rc(1) by (rule run_loop_loads [OF rc(2)])
  have d: "length (progress_of (run w paths)) = length paths"
    by (simp only: rc(1) run_loop_progress length_map length_upt)
  have e: "finished_of (run w paths)
      = [concat (map (rows_of pf w) (filter (\<lambda>p. \<not> isl (snd (pf w p))) paths))]"
    by (simp add: rc(1) run_loop_finished rows_of_filter)
  from a b c d e show ?thesis by (intro conjI)
qed

theorem run_survives_failure_witness:
  "snd (process_file_sorter sample_world ([u ''bad.png'', u ''ok.png''] ! 0))
     = Inl (Exn (u ''cannot identify image file''))
   \<and> Emit (Status (u ''Error in '' @ u ''bad.png'' @ u '': '' @ u ''cannot identify image file''))
       \<in> set (run_sorter sample_world [u ''bad.png'', u ''ok.png''])
   \<and> loads_of (run_sorter sample_world [u ''bad.png'', u ''ok.png'']) = [u ''bad.png'', u ''ok.png'']
   \<and> finished_of (run_sorter sample_world [u ''bad.png'', u ''ok.png'']) = [[sample_row]]"
proof -
  have h: "snd (process_file_sorter sample_world ([u ''bad.png'', u ''ok.png''] ! 0))
      = Inl (Exn (u ''cannot identify image file''))"
    by (simp add: sample_results)
  have b: "basename sample_world (u ''bad.png'') = u ''bad.png''" by (simp add: sample_world_def)
  from run_survives_failure [of process_file_sorter run_sorter 0 "[u ''bad.png'', u ''ok.png'']"
      sample_world "u ''cannot identify image file''", OF _ _ h]
  show ?thesis using h by (simp add: b rows_of_def sample_results)
qed

lemma prog_val_29_50: "prog_val 29 50 = 57"
  by code_simp

lemma progress_nth:
  assumes "k < length paths"
  shows "progress_of (run_app w paths) ! k = prog_val (Suc k) (length paths)"
    and "progress_of (run_sorter w paths) ! k = prog_val (Suc k) (length paths)"
  using assms by (simp_all add: run_app_def run_sorter_def run_loop_progress del: upt_Suc)

text \<open>
  C5 at fifty files: after the 29th file both variants emit 57, where the floor of
  (29 / 50) * 100 is 58. The double nearest to 29 / 50 is below 0.58 and its product
  with 100 rounds to a double below 58, which \<^verbatim>\<open>int\<close> truncates.
\<close>

theorem progress_after_29_of_50:
  "progress_of (run_app w (replicate 50 p)) ! 28 = 57
   \<and> progress_of (run_sorter w (replicate 50 p)) ! 28 = 57
   \<and> (29 * 100) div 50 = (58 :: int)"
proof -
  have "progress_of (run_app w (replicate 50 p)) ! 28 = prog_val (Suc 28) (length (replicate 50 p))"
    by (rule progress_nth) simp
  moreover have "progress_of (run_sorter w (replicate 50 p)) ! 28 = prog_val (Suc 28) (length (replicate 50 p))"
    by (rule progress_nth) simp
  moreover have "Suc 28 = 29" by simp
  ultimately show ?thesis by (simp add: prog_val_29_50)
qed

lemma handle_finished_flags:
  assumes "hf = handle_finished_app \<or> hf = handle_finished_sorter"
  shows "btn_enabled (hf results save_path write_error st)"
    and "running (hf results save_path write_error st) = running st"
  using assms
  by (auto simp: handle_finished_app_def handle_finished_sorter_def Let_def
      split: option.splits exn.splits if_splits)

lemma deliver_invariant:
  assumes "hf = handle_finished_app \<or> hf = handle_finished_sorter"
    and "running st \<longleftrightarrow> \<not> btn_enabled st" and "can_occur st ev"
  shows "running (deliver hf st ev) \<longleftrightarrow> \<not> btn_enabled (deliver hf st ev)"
  using assms(2,3)
  by (cases ev) (auto simp: handle_upload_def handle_finished_flags [OF assms(1)])

lemma run_events_invariant:
  assumes "hf = handle_finished_app \<or> hf = handle_finished_sorter"
  shows "running st0 \<longleftrightarrow> \<not> btn_enabled st0 \<Longrightarrow> run_events hf st0 evs = Some st \<Longrightarrow>
         running st \<longleftrightarrow> \<not> btn_enabled st"
proof (induction evs arbitrary: st0)
  case Nil
  then show ?case by simp
next
  case (Cons ev evs)
  from Cons.prems(2) have c: "can_occur st0 ev"
    and r: "run_events hf (deliver hf st0 ev) evs = Some st"
    by (simp_all split: if_splits)
  from deliver_invariant [OF assms Cons.prems(1) c] r show ?case by (rule Cons.IH)
qed

lemma run_events_snoc:
  "run_events hf st0 (evs @ [ev]) =
     (case run_events hf st0 evs of
        None \<Rightarrow> None
      | Some st \<Rightarrow> if can_occur st ev then Some (deliver hf st ev) else None)"
  by (induction evs arbitrary: st0) simp_all

lemma reenabled_only_by_finished:
  assumes "hf = handle_finished_app \<or> hf = handle_finished_sorter"
    and "\<not> btn_enabled st" and "can_occur st ev"
  shows "btn_enabled (deliver hf st ev) \<longleftrightarrow> is_finished ev"
  using assms(2,3)
  by (cases ev) (auto simp: handle_finished_flags [OF assms(1)])

text \<open>
  C7. From the initial window, whatever events occur: \<^verbatim>\<open>handle_upload\<close> with a
  non-empty selection disables the button and starts the worker; the button is disabled
  exactly while the worker runs; a disabled button is enabled again by the delivery of
  \<^verbatim>\<open>finished\<close> and by no other event; and while the worker runs no click is delivered,
  so \<^verbatim>\<open>handle_upload\<close> starts no second worker.
\<close>

theorem upload_button_state_machine:
  assumes "hf = handle_finished_app \<or> hf = handle_finished_sorter"
    and "initial st0" and "run_events hf st0 evs = Some st"
  shows "(files \<noteq> [] \<longrightarrow> \<not> btn_enabled (handle_upload files st) \<and> running (handle_upload files st))
     \<and> (running st \<longleftrightarrow> \<not> btn_enabled st)
     \<and> (\<forall>ev. \<not> btn_enabled st \<longrightarrow> can_occur st ev \<longrightarrow>
           (btn_enabled (deliver hf st ev) \<longleftrightarrow> is_finished ev))
     \<and> (running st \<longrightarrow> run_events hf st0 (evs @ [Click files]) = None)"
proof -
  have a: "files \<noteq> [] \<longrightarrow> \<not> btn_enabled (handle_upload files st) \<and> running (handle_upload files st)"
    by (simp add: handle_upload_def)
  from assms(2) have "running st0 \<longleftrightarrow> \<not> btn_enabled st0" by (simp add: initial_def)
  from run_events_invariant [OF assms(1) this assms(3)]
  have b: "running st \<longleftrightarrow> \<not> btn_enabled st" .
  have c: "\<forall>ev. \<not> btn_enabled st \<longrightarrow> can_occur st ev \<longrightarrow>
           (btn_enabled (deliver hf st ev) \<longleftrightarrow> is_finished ev)"
    using reenabled_only_by_finished [OF assms(1)] by blast
  have d: "running st \<longrightarrow> run_events hf st0 (evs @ [Click files]) = None"
    using b by (simp add: run_events_snoc assms(3))
  from a b c d show ?thesis by (intro conjI)
qed

theorem upload_button_state_machine_witness:
  "initial idle_window
   \<and> run_events handle_finished_app idle_window [Click [u ''a.pdf'']]
       = Some (handle_upload [u ''a.pdf''] idle_window)
   \<and> running (handle_upload [u ''a.pdf''] idle_window)
   \<and> \<not> btn_enabled (handle_upload [u ''a.pdf''] idle_window)
   \<and> run_events handle_finished_app idle_window ([Click [u ''a.pdf'']] @ [Click [u ''b.pdf'']]) = None
   \<and> btn_enabled (deliver handle_finished_app (handle_upload [u ''a.pdf''] idle_window)
        (Worker_finished [] None None))"
proof -
  have i: "initial idle_window" by (simp add: initial_def idle_window_def)
  have r: "run_events handle_finished_app idle_window [Click [u ''a.pdf'']]
      = Some (handle_upload [u ''a.pdf''] idle_window)"
    by (simp add: idle_window_def)
  have f: "is_finished (Worker_finished [] None None)" by simp
  from upload_button_state_machine [of handle_finished_app idle_window "[Click [u ''a.pdf'']]"
      "handle_upload [u ''a.pdf''] idle_window" "[u ''b.pdf'']", OF _ i r]
  have t: "(running (handle_upload [u ''a.pdf''] idle_window)
        \<longleftrightarrow> \<not> btn_enabled (handle_upload [u ''a.pdf''] idle_window))
     \<and> (\<forall>ev. \<not> btn_enabled (handle_upload [u ''a.pdf''] idle_window) \<longrightarrow>
           can_occur (handle_upload [u ''a.pdf''] idle_window) ev \<longrightarrow>
           (btn_enabled (deliver handle_finished_app (handle_upload [u ''a.pdf''] idle_window) ev)
              \<longleftrightarrow> is_finished ev))
     \<and> (running (handle_upload [u ''a.pdf''] idle_window) \<longrightarrow>
           run_events handle_finished_app idle_window ([Click [u ''a.pdf'']] @ [Click [u ''b.pdf'']]) = None)"
    by simp
  have run: "running (handle_upload [u ''a.pdf''] idle_window)"
    by (simp add: handle_upload_def)
  with t have dis: "\<not> btn_enabled (handle_upload [u ''a.pdf''] idle_window)" by blast
  from run have occ: "can_occur (handle_upload [u ''a.pdf''] idle_window) (Worker_finished [] None None)"
    by simp
  from t dis occ f have "btn_enabled (deliver handle_finished_app (handle_upload [u ''a.pdf''] idle_window)
        (Worker_finished [] None None))" by blast
  with i r run dis t show ?thesis by blast
qed

end
